theory Spec2Isabelle
  imports Main "HOL-Library.Monad_Syntax"
begin

section \<open>The host editor\<close>

text \<open>
  The plugin (\<^verbatim>\<open>src/main.ts\<close>) works on the host's \<^verbatim>\<open>Editor\<close> object. The host is
  not part of the repository; the model below fixes what the plugin relies on.
  A document is its text, a string whose lines are separated by the newline character.
  A JavaScript string is modelled as an Isabelle \<open>string\<close>, one \<open>char\<close> per code unit.
  The editor carries one selection, given by its anchor and its head (the cursor).
\<close>

record EditorPosition =
  line :: int
  ch :: nat

record Editor =
  doc :: string
  anchor :: EditorPosition
  head :: EditorPosition

definition newline :: char where
  "newline = CHR 0x0A"

text \<open>The lines of a text: the pieces between newline characters (at least one line).\<close>

fun splitLines :: "string \<Rightarrow> string list" where
  "splitLines [] = [[]]"
| "splitLines (c # cs) =
     (if c = newline then [] # splitLines cs
      else (case splitLines cs of
              [] \<Rightarrow> [[c]]
            | l # ls \<Rightarrow> (c # l) # ls))"

text \<open>The text of a list of lines: the lines with a newline between neighbours.\<close>

fun joinLines :: "string list \<Rightarrow> string" where
  "joinLines [] = []"
| "joinLines [l] = l"
| "joinLines (l # m # ls) = l @ newline # joinLines (m # ls)"

definition lineCount :: "Editor \<Rightarrow> int" where
  "lineCount e = int (length (splitLines (doc e)))"

text \<open>\<^verbatim>\<open>editor.getLine(i)\<close>; a line number outside the document raises (\<open>None\<close>).\<close>

definition getLine :: "Editor \<Rightarrow> int \<Rightarrow> string option" where
  "getLine e i =
     (if 0 \<le> i \<and> i < lineCount e then Some (splitLines (doc e) ! nat i) else None)"

text \<open>Offset of the first character of line \<open>i\<close> in the text.\<close>

definition lineFrom :: "string list \<Rightarrow> nat \<Rightarrow> nat" where
  "lineFrom ls i = sum_list (map (\<lambda>l. Suc (length l)) (take i ls))"

text \<open>
  \<^verbatim>\<open>editor.posToOffset(pos)\<close>: the position clamped into the document. A line before
  the document gives offset 0, a line after it the length of the text, a column beyond
  the end of its line the end of that line.
\<close>

definition posToOffset :: "Editor \<Rightarrow> EditorPosition \<Rightarrow> nat" where
  "posToOffset e p =
     (let ls = splitLines (doc e) in
      if line p < 0 then 0
      else if int (length ls) \<le> line p then length (doc e)
      else lineFrom ls (nat (line p)) + min (ch p) (length (ls ! nat (line p))))"

text \<open>\<^verbatim>\<open>editor.getRange(from, to)\<close>: the text between two positions (empty when
  \<open>to\<close> is not after \<open>from\<close>).\<close>

definition getRange :: "Editor \<Rightarrow> EditorPosition \<Rightarrow> EditorPosition \<Rightarrow> string" where
  "getRange e from to =
     (let a = posToOffset e from; b = posToOffset e to
      in take (b - a) (drop a (doc e)))"

text \<open>
  \<^verbatim>\<open>editor.replaceRange(text, from, to)\<close>: the new text of the document. A range
  whose end lies before its start is refused by the host (\<open>None\<close>).
\<close>

definition replaceRange :: "Editor \<Rightarrow> string \<Rightarrow> EditorPosition \<Rightarrow> EditorPosition \<Rightarrow> string option" where
  "replaceRange e new from to =
     (let a = posToOffset e from; b = posToOffset e to
      in if b < a then None else Some (take a (doc e) @ new @ drop b (doc e)))"

text \<open>Order of positions: by line, then by column.\<close>

definition posLe :: "EditorPosition \<Rightarrow> EditorPosition \<Rightarrow> bool" where
  "posLe p q = (line p < line q \<or> (line p = line q \<and> ch p \<le> ch q))"

text \<open>\<^verbatim>\<open>editor.getCursor()\<close> is the head of the selection; \<^verbatim>\<open>getCursor('from')\<close> and
  \<^verbatim>\<open>getCursor('to')\<close> are its first and its last end.\<close>

definition getCursor :: "Editor \<Rightarrow> EditorPosition" where
  "getCursor e = head e"

definition getCursorFrom :: "Editor \<Rightarrow> EditorPosition" where
  "getCursorFrom e = (if posLe (anchor e) (head e) then anchor e else head e)"

definition getCursorTo :: "Editor \<Rightarrow> EditorPosition" where
  "getCursorTo e = (if posLe (anchor e) (head e) then head e else anchor e)"

text \<open>\<^verbatim>\<open>editor.replaceSelection(text)\<close>: the selection replaced by the text.\<close>

definition replaceSelection :: "Editor \<Rightarrow> string \<Rightarrow> string option" where
  "replaceSelection e new = replaceRange e new (getCursorFrom e) (getCursorTo e)"

section \<open>JavaScript string operations\<close>

text \<open>\<^verbatim>\<open>s.startsWith(p)\<close>\<close>

definition startsWith :: "string \<Rightarrow> string \<Rightarrow> bool" where
  "startsWith s p = (take (length p) s = p)"

text \<open>White space of \<^verbatim>\<open>trim()\<close> and of the regular expression class \<^verbatim>\<open>\s\<close>, among
  the characters modelled: tab, line feed, vertical tab, form feed, carriage return,
  space, no-break space.\<close>

definition isWhiteSpace :: "char \<Rightarrow> bool" where
  "isWhiteSpace c =
     (c = CHR 0x09 \<or> c = CHR 0x0A \<or> c = CHR 0x0B \<or> c = CHR 0x0C \<or> c = CHR 0x0D
      \<or> c = CHR 0x20 \<or> c = CHR 0xA0)"

definition trim :: "string \<Rightarrow> string" where
  "trim s = rev (dropWhile isWhiteSpace (rev (dropWhile isWhiteSpace s)))"

text \<open>\<^verbatim>\<open>toLowerCase()\<close> on one character: the letters A to Z, and the upper-case
  letters of the Latin-1 range (all but the multiplication sign).\<close>

definition lowerChar :: "char \<Rightarrow> char" where
  "lowerChar c =
     (let n = of_char c :: nat in
      if (65 \<le> n \<and> n \<le> 90) \<or> (192 \<le> n \<and> n \<le> 222 \<and> n \<noteq> 215)
      then char_of (n + 32) else c)"

definition toLowerCase :: "string \<Rightarrow> string" where
  "toLowerCase s = map lowerChar s"

section \<open>Fences\<close>

record FenceInfo =
  inside :: bool
  lang :: "string option"
  startLine :: int
  endLine :: int

definition backtick :: char where
  "backtick = CHR 0x60"

definition fenceMark :: string where
  "fenceMark = [backtick, backtick, backtick]"

text \<open>\<^verbatim>\<open>isPythonLang\<close>: \<open>null\<close> and the empty string are falsy.\<close>

definition isPythonLang :: "string option \<Rightarrow> bool" where
  "isPythonLang lg =
     (case lg of
        None \<Rightarrow> False
      | Some s \<Rightarrow>
          if s = [] then False
          else (let l = toLowerCase s
                in l = ''python'' \<or> l = ''py'' \<or> l = ''python3'' \<or> l = ''py3''))"

text \<open>
  \<^verbatim>\<open>extractFenceLang\<close>: the trimmed line is matched against the regular expression
  \<^verbatim>\<open>^`{3,}\s*([^\s`{]+)?\<close>: three or more backticks, white space, then an optional group
  of characters that are neither white space, nor a backtick, nor an opening brace.
  Every quantifier is greedy and the group is optional, so the first attempt matches:
  all leading backticks, all white space after them, and the longest run of allowed
  characters; an empty run leaves the group undefined and the result is \<open>null\<close>.
\<close>

definition langChar :: "char \<Rightarrow> bool" where
  "langChar c = (\<not> isWhiteSpace c \<and> c \<noteq> backtick \<and> c \<noteq> CHR 0x7B)"

definition extractFenceLang :: "string \<Rightarrow> string option" where
  "extractFenceLang fenceLine =
     (let t = trim fenceLine in
      if \<not> startsWith t fenceMark then None
      else (let g = takeWhile langChar
                      (dropWhile isWhiteSpace (dropWhile (\<lambda>c. c = backtick) t))
            in if g = [] then None else Some g))"

text \<open>The backward loop of \<^verbatim>\<open>findFenceInfo\<close>, from line \<open>i\<close> down to line 0: the
  first line found that starts with the fence mark, or \<open>-1\<close>.\<close>

fun scanOpen :: "Editor \<Rightarrow> nat \<Rightarrow> int option" where
  "scanOpen e 0 =
     (case getLine e 0 of
        None \<Rightarrow> None
      | Some l \<Rightarrow> if startsWith l fenceMark then Some 0 else Some (- 1))"
| "scanOpen e (Suc i) =
     (case getLine e (int (Suc i)) of
        None \<Rightarrow> None
      | Some l \<Rightarrow> if startsWith l fenceMark then Some (int (Suc i)) else scanOpen e i)"

text \<open>The forward loop, from line \<open>j\<close> to the last line.\<close>

function scanClose :: "Editor \<Rightarrow> int \<Rightarrow> int option" where
  "scanClose e j =
     (if j < lineCount e then
        (case getLine e j of
           None \<Rightarrow> None
         | Some l \<Rightarrow> if startsWith l fenceMark then Some j else scanClose e (j + 1))
      else Some (- 1))"
  by pat_completeness auto
termination
  by (relation "measure (\<lambda>(e, j). nat (lineCount e - j))") auto

definition absent :: FenceInfo where
  "absent = \<lparr>inside = False, lang = None, startLine = - 1, endLine = - 1\<rparr>"

definition findFenceInfo :: "Editor \<Rightarrow> EditorPosition \<Rightarrow> FenceInfo option" where
  "findFenceInfo e pos =
     (case (if line pos < 0 then Some (- 1) else scanOpen e (nat (line pos))) of
        None \<Rightarrow> None
      | Some opn \<Rightarrow>
          if opn = - 1 then Some absent
          else (case scanClose e (opn + 1) of
                  None \<Rightarrow> None
                | Some cls \<Rightarrow>
                    if cls = - 1 then Some absent
                    else (case getLine e opn of
                            None \<Rightarrow> None
                          | Some l \<Rightarrow>
                              Some \<lparr>inside = (line pos > opn \<and> line pos < cls),
                                    lang = extractFenceLang l,
                                    startLine = opn, endLine = cls\<rparr>)))"

text \<open>The test both loops apply to a line: line \<open>i\<close> exists and starts with the fence mark.\<close>

definition isFenceLine :: "Editor \<Rightarrow> int \<Rightarrow> bool" where
  "isFenceLine e i =
     (case getLine e i of None \<Rightarrow> False | Some l \<Rightarrow> startsWith l fenceMark)"

text \<open>
  The test \<^verbatim>\<open>extractFenceLang\<close> applies to a line: line \<open>i\<close> exists and its trimmed text
  starts with the fence mark (the regular expression matches). A line that passes this
  test but not the test of the loops is an indented delimiter line.
\<close>

definition isDelimiterLine :: "Editor \<Rightarrow> int \<Rightarrow> bool" where
  "isDelimiterLine e i =
     (case getLine e i of None \<Rightarrow> False | Some l \<Rightarrow> startsWith (trim l) fenceMark)"

definition indentedDelimiter :: "string \<Rightarrow> bool" where
  "indentedDelimiter l = (startsWith (trim l) fenceMark \<and> \<not> startsWith l fenceMark)"

definition noIndentedDelimiters :: "Editor \<Rightarrow> bool" where
  "noIndentedDelimiters e = list_all (\<lambda>l. \<not> indentedDelimiter l) (splitLines (doc e))"

section \<open>Block text, paste merge, block replacement\<close>

definition getBlockText :: "Editor \<Rightarrow> FenceInfo \<Rightarrow> string" where
  "getBlockText e info =
     (let from = \<lparr>line = startLine info + 1, ch = 0\<rparr>;
          to = \<lparr>line = endLine info, ch = 0\<rparr>
      in getRange e from to)"

definition mergePasteIntoBlock :: "Editor \<Rightarrow> FenceInfo \<Rightarrow> string \<Rightarrow> string" where
  "mergePasteIntoBlock e info pasted =
     (let blockStart = \<lparr>line = startLine info + 1, ch = 0\<rparr>;
          blockEnd = \<lparr>line = endLine info, ch = 0\<rparr>;
          selFrom = getCursorFrom e;
          selTo = getCursorTo e;
          safeFrom = (if line selFrom \<le> startLine info then blockStart else selFrom);
          safeTo = (if line selTo \<ge> endLine info then blockEnd else selTo);
          left = getRange e blockStart safeFrom;
          right = getRange e safeTo blockEnd
      in left @ pasted @ right)"

definition replaceBlock :: "Editor \<Rightarrow> FenceInfo \<Rightarrow> string \<Rightarrow> string option" where
  "replaceBlock e info newCode =
     (let from = \<lparr>line = startLine info + 1, ch = 0\<rparr>;
          to = \<lparr>line = endLine info, ch = 0\<rparr>
      in replaceRange e newCode from to)"

section \<open>The formatter subprocess\<close>

text \<open>
  \<^verbatim>\<open>runFormatter\<close> spawns a child process and registers four callbacks. What the child
  does is given by the list of events it emits, in order: chunks of standard output and
  of standard error (already decoded to strings), an \<^verbatim>\<open>error\<close> event (the executable
  could not be launched), and the \<^verbatim>\<open>close\<close> event with the exit status (\<open>None\<close> for
  \<open>null\<close>, a child ended by a signal).
\<close>

datatype ChildEvent =
    StdoutData string
  | StderrData string
  | ErrorEvent string
  | CloseEvent "int option"

text \<open>The two ways the promise is rejected: with the cause of the \<^verbatim>\<open>error\<close> event, or
  with the \<^verbatim>\<open>Error\<close> built in the \<^verbatim>\<open>close\<close> callback.\<close>

datatype FormatFailure = SpawnError string | FormatterError string

text \<open>The variables the callbacks share, and the state of the promise: a promise is
  settled once, later calls of \<^verbatim>\<open>resolve\<close> and \<^verbatim>\<open>reject\<close> have no effect.\<close>

record FormatterRun =
  out :: string
  err :: string
  settled :: "(FormatFailure + string) option"

definition settle :: "FormatterRun \<Rightarrow> FormatFailure + string \<Rightarrow> FormatterRun" where
  "settle st v = (case settled st of None \<Rightarrow> st\<lparr>settled := Some v\<rparr> | Some _ \<Rightarrow> st)"

text \<open>\<^verbatim>\<open>String(n)\<close> for an integer, and for the exit status in the template literal.\<close>

definition digitChar :: "nat \<Rightarrow> char" where
  "digitChar d = char_of (48 + d)"

function showNat :: "nat \<Rightarrow> string" where
  "showNat n = (if n < 10 then [digitChar n] else showNat (n div 10) @ [digitChar (n mod 10)])"
  by pat_completeness auto
termination
  by (relation "measure (\<lambda>n. n)") auto

definition showInt :: "int \<Rightarrow> string" where
  "showInt i = (if i < 0 then CHR ''-'' # showNat (nat (- i)) else showNat (nat i))"

definition showCode :: "int option \<Rightarrow> string" where
  "showCode code = (case code of None \<Rightarrow> ''null'' | Some c \<Rightarrow> showInt c)"

fun onChildEvent :: "string \<Rightarrow> FormatterRun \<Rightarrow> ChildEvent \<Rightarrow> FormatterRun" where
  "onChildEvent input st (StdoutData d) = st\<lparr>out := out st @ d\<rparr>"
| "onChildEvent input st (StderrData d) = st\<lparr>err := err st @ d\<rparr>"
| "onChildEvent input st (ErrorEvent cause) = settle st (Inl (SpawnError cause))"
| "onChildEvent input st (CloseEvent code) =
     (if code = Some 0 then settle st (Inr (if out st = [] then input else out st))
      else settle st (Inl (FormatterError
             (if err st = [] then ''Formatter exited with code '' @ showCode code
              else err st))))"

text \<open>The operating system: the events of the child spawned for a command, its
  arguments and the text written to its standard input.\<close>

type_synonym Os = "string \<Rightarrow> string list \<Rightarrow> string \<Rightarrow> ChildEvent list"

text \<open>\<^verbatim>\<open>runFormatter\<close>: how the promise is settled; \<open>None\<close> when it never is (neither
  \<^verbatim>\<open>close\<close> nor \<^verbatim>\<open>error\<close> arrives).\<close>

definition runFormatter :: "Os \<Rightarrow> string \<Rightarrow> string list \<Rightarrow> string \<Rightarrow> (FormatFailure + string) option" where
  "runFormatter os cmd args input =
     settled (foldl (onChildEvent input) \<lparr>out = [], err = [], settled = None\<rparr>
                (os cmd args input))"

section \<open>The plugin\<close>

datatype Engine = Ruff | Black

datatype Scope = Block | Snippet

record Settings =
  enabled :: bool
  engine :: Engine
  ruffPath :: string
  blackPath :: string
  lineLength :: int
  scope :: Scope

definition DEFAULT_SETTINGS :: Settings where
  "DEFAULT_SETTINGS =
     \<lparr>enabled = True, engine = Ruff, ruffPath = ''ruff'', blackPath = ''black'',
      lineLength = 88, scope = Block\<rparr>"

record Plugin =
  settings :: Settings
  lastPasteAt :: int

definition formatText :: "Os \<Rightarrow> Settings \<Rightarrow> string \<Rightarrow> (FormatFailure + string) option" where
  "formatText os s code =
     (if engine s = Ruff then
        runFormatter os (ruffPath s)
          [''format'', ''--stdin-filename'', ''pasted.py'', ''--line-length'',
           showInt (lineLength s), ''-''] code
      else
        runFormatter os (blackPath s)
          [''-q'', ''--stdin-filename'', ''pasted.py'', ''--line-length'',
           showInt (lineLength s), ''-''] code)"

text \<open>
  A paste event as the handler sees it: the value of \<^verbatim>\<open>Date.now()\<close> when the handler
  runs, \<^verbatim>\<open>evt.defaultPrevented\<close>, whether the view is a \<^verbatim>\<open>MarkdownView\<close>, and
  \<^verbatim>\<open>evt.clipboardData?.getData('text/plain')\<close> (\<open>None\<close> when there is no clipboard
  data).
\<close>

record PasteEvent =
  now :: int
  defaultPrevented :: bool
  viewIsMarkdown :: bool
  clipboardText :: "string option"

text \<open>The calls by which the handler changes the document.\<close>

datatype HostCall = ReplaceSelection string | ReplaceBlock FenceInfo string

text \<open>
  What one run of the handler does: the plugin afterwards, whether
  \<^verbatim>\<open>evt.preventDefault()\<close> was called, the text sent to the formatter (if any), the
  changes made to the document, and the text of the document afterwards.
\<close>

record PasteOutcome =
  pluginAfter :: Plugin
  preventDefaultCalled :: bool
  formatterInput :: "string option"
  hostCalls :: "HostCall list"
  docAfter :: string

text \<open>A call of \<^verbatim>\<open>editor.replaceSelection\<close> or of \<^verbatim>\<open>replaceBlock\<close>; \<open>None\<close> when the
  host raises.\<close>

definition callReplaceSelection :: "Editor \<Rightarrow> string \<Rightarrow> PasteOutcome \<Rightarrow> PasteOutcome option" where
  "callReplaceSelection e t oc =
     (case replaceSelection e t of
        None \<Rightarrow> None
      | Some d \<Rightarrow> Some (oc\<lparr>hostCalls := hostCalls oc @ [ReplaceSelection t], docAfter := d\<rparr>))"

definition callReplaceBlock :: "Editor \<Rightarrow> FenceInfo \<Rightarrow> string \<Rightarrow> PasteOutcome \<Rightarrow> PasteOutcome option" where
  "callReplaceBlock e info t oc =
     (case replaceBlock e info t of
        None \<Rightarrow> None
      | Some d \<Rightarrow> Some (oc\<lparr>hostCalls := hostCalls oc @ [ReplaceBlock info t], docAfter := d\<rparr>))"

text \<open>The \<^verbatim>\<open>catch\<close> branches that paste the text unformatted; an exception raised
  there reaches the outer \<^verbatim>\<open>catch\<close>, which only logs.\<close>

definition pasteUnformatted :: "Editor \<Rightarrow> string \<Rightarrow> PasteOutcome \<Rightarrow> PasteOutcome" where
  "pasteUnformatted e t oc =
     (case callReplaceSelection e t oc of None \<Rightarrow> oc | Some oc' \<Rightarrow> oc')"

text \<open>
  The \<^verbatim>\<open>editor-paste\<close> handler registered in \<^verbatim>\<open>onload\<close>. The document is taken to
  be the same before and after the formatter ran. A formatter that never settles leaves
  the handler suspended for ever: the event is claimed and nothing is written.
\<close>

definition onPaste :: "Os \<Rightarrow> Plugin \<Rightarrow> PasteEvent \<Rightarrow> Editor \<Rightarrow> PasteOutcome" where
  "onPaste os p evt e =
     (if now evt - lastPasteAt p < 250 then
        \<lparr>pluginAfter = p, preventDefaultCalled = False, formatterInput = None,
         hostCalls = [], docAfter = doc e\<rparr>
      else
        (let p' = p\<lparr>lastPasteAt := now evt\<rparr>;
             skip = \<lparr>pluginAfter = p', preventDefaultCalled = False, formatterInput = None,
                     hostCalls = [], docAfter = doc e\<rparr>
         in
         if \<not> enabled (settings p') then skip
         else if defaultPrevented evt then skip
         else if \<not> viewIsMarkdown evt then skip
         else
           (case findFenceInfo e (getCursor e) of
              None \<Rightarrow> skip
            | Some info \<Rightarrow>
                if \<not> inside info \<or> \<not> isPythonLang (lang info) then skip
                else
                  (case clipboardText evt of
                     None \<Rightarrow> skip
                   | Some text \<Rightarrow>
                       if text = [] then skip
                       else if scope (settings p') = Snippet then
                         (let oc = skip\<lparr>preventDefaultCalled := True,
                                         formatterInput := Some text\<rparr>
                          in case formatText os (settings p') text of
                               None \<Rightarrow> oc
                             | Some (Inr formattedSnippet) \<Rightarrow>
                                 (case callReplaceSelection e formattedSnippet oc of
                                    Some oc' \<Rightarrow> oc'
                                  | None \<Rightarrow> pasteUnformatted e text oc)
                             | Some (Inl failure) \<Rightarrow> pasteUnformatted e text oc)
                       else
                         (let merged = mergePasteIntoBlock e info text;
                              oc = skip\<lparr>preventDefaultCalled := True,
                                         formatterInput := Some merged\<rparr>
                          in case formatText os (settings p') merged of
                               None \<Rightarrow> oc
                             | Some (Inr formatted) \<Rightarrow>
                                 (case callReplaceBlock e info formatted oc of
                                    Some oc' \<Rightarrow> oc'
                                  | None \<Rightarrow> pasteUnformatted e text oc)
                             | Some (Inl failure) \<Rightarrow> pasteUnformatted e text oc)))))"

section \<open>Case-insensitive match\<close>

text \<open>
  The notion the specification uses for the language tag: \<open>t\<close> is the lower-case word
  \<open>w\<close> up to the case of the letters a to z.
\<close>

definition matchesIgnoringCase :: "string \<Rightarrow> string \<Rightarrow> bool" where
  "matchesIgnoringCase t w =
     list_all2 (\<lambda>a b. a = b \<or>
        ((97::nat) \<le> of_char b \<and> of_char b \<le> (122::nat) \<and> of_char a + 32 = (of_char b :: nat))) t w"

section \<open>What a child process wrote\<close>

text \<open>The text a list of events carries on standard output and on standard error, and
  the events that are chunks of either.\<close>

fun stdoutOf :: "ChildEvent \<Rightarrow> string" where
  "stdoutOf (StdoutData d) = d"
| "stdoutOf (StderrData d) = []"
| "stdoutOf (ErrorEvent c) = []"
| "stdoutOf (CloseEvent c) = []"

fun stderrOf :: "ChildEvent \<Rightarrow> string" where
  "stderrOf (StdoutData d) = []"
| "stderrOf (StderrData d) = d"
| "stderrOf (ErrorEvent c) = []"
| "stderrOf (CloseEvent c) = []"

fun isData :: "ChildEvent \<Rightarrow> bool" where
  "isData (StdoutData d) = True"
| "isData (StderrData d) = True"
| "isData (ErrorEvent c) = False"
| "isData (CloseEvent c) = False"

definition collectedStdout :: "ChildEvent list \<Rightarrow> string" where
  "collectedStdout evs = concat (map stdoutOf evs)"

definition collectedStderr :: "ChildEvent list \<Rightarrow> string" where
  "collectedStderr evs = concat (map stderrOf evs)"

section \<open>Example documents\<close>

text \<open>A Python fence alone in the document, the cursor at the end of its content line.\<close>

definition exFence :: Editor where
  "exFence =
     \<lparr>doc = joinLines [''```python'', ''x = 1'', ''```''],
      anchor = \<lparr>line = 1, ch = 5\<rparr>, head = \<lparr>line = 1, ch = 5\<rparr>\<rparr>"

text \<open>Two closed fences with a line of prose between them, the cursor on the prose.\<close>

definition exTwoFences :: Editor where
  "exTwoFences =
     \<lparr>doc = joinLines [''```python'', ''x = 1'', ''```'', ''prose'', ''```js'', ''y'', ''```''],
      anchor = \<lparr>line = 3, ch = 0\<rparr>, head = \<lparr>line = 3, ch = 0\<rparr>\<rparr>"

text \<open>A fence whose delimiter lines are indented by two spaces, as inside a list item.\<close>

definition exIndented :: Editor where
  "exIndented =
     \<lparr>doc = joinLines [''  ```python'', ''x = 1'', ''  ```''],
      anchor = \<lparr>line = 1, ch = 0\<rparr>, head = \<lparr>line = 1, ch = 0\<rparr>\<rparr>"

text \<open>A Python fence inside a list item, indented with it; the cursor on its content line.\<close>

definition exListItem :: Editor where
  "exListItem =
     \<lparr>doc = joinLines [''- item'', ''  ```py'', ''  x = 1'', ''  ```''],
      anchor = \<lparr>line = 2, ch = 2\<rparr>, head = \<lparr>line = 2, ch = 2\<rparr>\<rparr>"

text \<open>A fence after a line of prose; the selection is the whole line of prose.\<close>

definition exSelectionBefore :: Editor where
  "exSelectionBefore =
     \<lparr>doc = joinLines [''intro'', ''```python'', ''x = 1'', ''```''],
      anchor = \<lparr>line = 0, ch = 0\<rparr>, head = \<lparr>line = 0, ch = 5\<rparr>\<rparr>"

definition infoSelectionBefore :: FenceInfo where
  "infoSelectionBefore = \<lparr>inside = True, lang = Some ''python'', startLine = 1, endLine = 3\<rparr>"

text \<open>A document without a fence.\<close>

definition exProse :: Editor where
  "exProse =
     \<lparr>doc = ''hello'', anchor = \<lparr>line = 0, ch = 0\<rparr>, head = \<lparr>line = 0, ch = 0\<rparr>\<rparr>"

section \<open>Example formatters, plugin and paste events\<close>

text \<open>A formatter that writes its input back in two chunks and exits with status 0.\<close>

definition exOsEcho :: Os where
  "exOsEcho cmd args input = [StdoutData (take 3 input), StdoutData (drop 3 input), CloseEvent (Some 0)]"

text \<open>A formatter that exits with status 2 after a message on standard error.\<close>

definition exOsFailing :: Os where
  "exOsFailing cmd args input =
     [StderrData ''error: '', StderrData ''Failed to parse'', CloseEvent (Some 2)]"

text \<open>A formatter that exits with status 1 and writes nothing on standard error.\<close>

definition exOsExit1 :: Os where
  "exOsExit1 cmd args input = [StdoutData ''partial'', CloseEvent (Some 1)]"

text \<open>A formatter that exits with status 0 and writes nothing at all.\<close>

definition exOsSilent :: Os where
  "exOsSilent cmd args input = [CloseEvent (Some 0)]"

text \<open>A formatter ended by a signal: the \<^verbatim>\<open>close\<close> event carries \<open>null\<close>.\<close>

definition exOsKilled :: Os where
  "exOsKilled cmd args input = [CloseEvent None]"

text \<open>A formatter that cannot be launched.\<close>

definition exOsMissing :: Os where
  "exOsMissing cmd args input = [ErrorEvent ''spawn ruff ENOENT'', CloseEvent (Some (- 2))]"

definition exPlugin :: Plugin where
  "exPlugin = \<lparr>settings = DEFAULT_SETTINGS, lastPasteAt = 0\<rparr>"

definition exPaste :: "int \<Rightarrow> string option \<Rightarrow> PasteEvent" where
  "exPaste t clip =
     \<lparr>now = t, defaultPrevented = False, viewIsMarkdown = True, clipboardText = clip\<rparr>"

section \<open>Properties of the fence locator\<close>

declare scanClose.simps [simp del]

lemma getLine_in_range:
  "0 \<le> i \<Longrightarrow> i < lineCount e \<Longrightarrow> \<exists>l. getLine e i = Some l"
  by (simp add: getLine_def)

lemma isFenceLine_range: "isFenceLine e i \<Longrightarrow> 0 \<le> i \<and> i < lineCount e"
  by (auto simp: isFenceLine_def getLine_def split: if_splits)

lemma scanOpen_cases:
  "int i < lineCount e \<Longrightarrow>
   \<exists>r. scanOpen e i = Some r \<and>
     ((r = - 1 \<and> (\<forall>k. 0 \<le> k \<and> k \<le> int i \<longrightarrow> \<not> isFenceLine e k)) \<or>
      (0 \<le> r \<and> r \<le> int i \<and> isFenceLine e r \<and>
       (\<forall>m. r < m \<and> m \<le> int i \<longrightarrow> \<not> isFenceLine e m)))"
proof (induction i)
  case 0
  then obtain l where l: "getLine e 0 = Some l"
    using getLine_in_range [of 0 e] by auto
  show ?case
  proof (cases "startsWith l fenceMark")
    case True
    then show ?thesis using l by (auto simp: isFenceLine_def)
  next
    case False
    then have "\<forall>k. 0 \<le> k \<and> k \<le> int 0 \<longrightarrow> \<not> isFenceLine e k"
      using l by (auto simp: isFenceLine_def)
    then show ?thesis using l False by simp
  qed
next
  case (Suc i)
  then obtain l where l: "getLine e (int (Suc i)) = Some l"
    using getLine_in_range [of "int (Suc i)" e] by auto
  show ?case
  proof (cases "startsWith l fenceMark")
    case True
    then have "isFenceLine e (int (Suc i))" using l by (simp add: isFenceLine_def)
    then show ?thesis using l True by auto
  next
    case False
    then have nf: "\<not> isFenceLine e (int (Suc i))" using l by (simp add: isFenceLine_def)
    from Suc have "int i < lineCount e" by simp
    from Suc.IH [OF this] obtain r where r: "scanOpen e i = Some r"
      and c: "(r = - 1 \<and> (\<forall>k. 0 \<le> k \<and> k \<le> int i \<longrightarrow> \<not> isFenceLine e k)) \<or>
      (0 \<le> r \<and> r \<le> int i \<and> isFenceLine e r \<and>
       (\<forall>m. r < m \<and> m \<le> int i \<longrightarrow> \<not> isFenceLine e m))" by blast
    have step: "\<And>k. k \<le> int (Suc i) \<Longrightarrow> k \<le> int i \<or> k = int (Suc i)" by auto
    have eq: "scanOpen e (Suc i) = Some r" using l False r by simp
    from c show ?thesis
    proof
      assume a: "r = - 1 \<and> (\<forall>k. 0 \<le> k \<and> k \<le> int i \<longrightarrow> \<not> isFenceLine e k)"
      then have "\<forall>k. 0 \<le> k \<and> k \<le> int (Suc i) \<longrightarrow> \<not> isFenceLine e k"
        using nf step by blast
      then show ?thesis using eq a by blast
    next
      assume a: "0 \<le> r \<and> r \<le> int i \<and> isFenceLine e r \<and>
       (\<forall>m. r < m \<and> m \<le> int i \<longrightarrow> \<not> isFenceLine e m)"
      then have "\<forall>m. r < m \<and> m \<le> int (Suc i) \<longrightarrow> \<not> isFenceLine e m"
        using nf step by blast
      moreover have "r \<le> int (Suc i)" using a by simp
      ultimately show ?thesis using eq a by blast
    qed
  qed
qed

lemma scanClose_cases:
  "0 \<le> j \<Longrightarrow>
   \<exists>r. scanClose e j = Some r \<and>
     ((r = - 1 \<and> (\<forall>m. j \<le> m \<and> m < lineCount e \<longrightarrow> \<not> isFenceLine e m)) \<or>
      (j \<le> r \<and> r < lineCount e \<and> isFenceLine e r \<and>
       (\<forall>m. j \<le> m \<and> m < r \<longrightarrow> \<not> isFenceLine e m)))"
proof (induction e j rule: scanClose.induct)
  case (1 e j)
  show ?case
  proof (cases "j < lineCount e")
    case False
    then have "scanClose e j = Some (- 1)" by (simp add: scanClose.simps)
    moreover have "\<forall>m. j \<le> m \<and> m < lineCount e \<longrightarrow> \<not> isFenceLine e m"
      using False by auto
    ultimately show ?thesis by blast
  next
    case True
    then obtain l where l: "getLine e j = Some l"
      using getLine_in_range [of j e] "1.prems" by auto
    show ?thesis
    proof (cases "startsWith l fenceMark")
      case f: True
      then have "scanClose e j = Some j" using True l by (simp add: scanClose.simps)
      moreover have "isFenceLine e j" using l f by (simp add: isFenceLine_def)
      ultimately show ?thesis using True by auto
    next
      case f: False
      then have nf: "\<not> isFenceLine e j" using l by (simp add: isFenceLine_def)
      have eq: "scanClose e j = scanClose e (j + 1)"
        using True l f by (subst scanClose.simps) simp
      have "0 \<le> j + 1" using "1.prems" by simp
      from "1.IH" [OF True l f this] obtain r where r: "scanClose e (j + 1) = Some r"
        and c: "(r = - 1 \<and> (\<forall>m. j + 1 \<le> m \<and> m < lineCount e \<longrightarrow> \<not> isFenceLine e m)) \<or>
          (j + 1 \<le> r \<and> r < lineCount e \<and> isFenceLine e r \<and>
           (\<forall>m. j + 1 \<le> m \<and> m < r \<longrightarrow> \<not> isFenceLine e m))" by blast
      have step: "\<And>m. j \<le> m \<Longrightarrow> m = j \<or> j + 1 \<le> m" by auto
      from c show ?thesis
      proof
        assume a: "r = - 1 \<and> (\<forall>m. j + 1 \<le> m \<and> m < lineCount e \<longrightarrow> \<not> isFenceLine e m)"
        then have "\<forall>m. j \<le> m \<and> m < lineCount e \<longrightarrow> \<not> isFenceLine e m"
          using nf step by blast
        then show ?thesis using eq r a by auto
      next
        assume a: "j + 1 \<le> r \<and> r < lineCount e \<and> isFenceLine e r \<and>
           (\<forall>m. j + 1 \<le> m \<and> m < r \<longrightarrow> \<not> isFenceLine e m)"
        then have "\<forall>m. j \<le> m \<and> m < r \<longrightarrow> \<not> isFenceLine e m"
          using nf step by blast
        moreover have "j \<le> r" using a by simp
        ultimately show ?thesis using eq r a by auto
      qed
    qed
  qed
qed

lemma findFenceInfo_cases:
  assumes "line pos < lineCount e"
  shows "\<exists>r. findFenceInfo e pos = Some r \<and>
     ((r = absent \<and> (\<forall>k. 0 \<le> k \<and> k \<le> line pos \<longrightarrow> \<not> isFenceLine e k)) \<or>
      (\<exists>k. 0 \<le> k \<and> k \<le> line pos \<and> isFenceLine e k \<and>
           (\<forall>m. k < m \<and> m \<le> line pos \<longrightarrow> \<not> isFenceLine e m) \<and>
           ((r = absent \<and> (\<forall>m. k < m \<and> m < lineCount e \<longrightarrow> \<not> isFenceLine e m)) \<or>
            (\<exists>c l. k < c \<and> c < lineCount e \<and> isFenceLine e c \<and>
                (\<forall>m. k < m \<and> m < c \<longrightarrow> \<not> isFenceLine e m) \<and>
                getLine e k = Some l \<and>
                r = \<lparr>inside = (k < line pos \<and> line pos < c), lang = extractFenceLang l,
                     startLine = k, endLine = c\<rparr>))))"
proof (cases "line pos < 0")
  case True
  then have "findFenceInfo e pos = Some absent" by (simp add: findFenceInfo_def)
  moreover have "\<forall>k. 0 \<le> k \<and> k \<le> line pos \<longrightarrow> \<not> isFenceLine e k" using True by auto
  ultimately show ?thesis by blast
next
  case False
  then have np: "int (nat (line pos)) = line pos" by simp
  then have "int (nat (line pos)) < lineCount e" using assms by simp
  from scanOpen_cases [OF this] obtain r0 where r0: "scanOpen e (nat (line pos)) = Some r0"
    and c0: "(r0 = - 1 \<and> (\<forall>k. 0 \<le> k \<and> k \<le> line pos \<longrightarrow> \<not> isFenceLine e k)) \<or>
      (0 \<le> r0 \<and> r0 \<le> line pos \<and> isFenceLine e r0 \<and>
       (\<forall>m. r0 < m \<and> m \<le> line pos \<longrightarrow> \<not> isFenceLine e m))"
    unfolding np by blast
  from c0 show ?thesis
  proof
    assume a: "r0 = - 1 \<and> (\<forall>k. 0 \<le> k \<and> k \<le> line pos \<longrightarrow> \<not> isFenceLine e k)"
    then have "findFenceInfo e pos = Some absent"
      using False r0 by (simp add: findFenceInfo_def)
    then show ?thesis using a by blast
  next
    assume a: "0 \<le> r0 \<and> r0 \<le> line pos \<and> isFenceLine e r0 \<and>
       (\<forall>m. r0 < m \<and> m \<le> line pos \<longrightarrow> \<not> isFenceLine e m)"
    then have ne: "r0 \<noteq> - 1" by auto
    have "0 \<le> r0 + 1" using a by simp
    from scanClose_cases [OF this, of e] obtain r1 where r1: "scanClose e (r0 + 1) = Some r1"
      and c1: "(r1 = - 1 \<and> (\<forall>m. r0 + 1 \<le> m \<and> m < lineCount e \<longrightarrow> \<not> isFenceLine e m)) \<or>
        (r0 + 1 \<le> r1 \<and> r1 < lineCount e \<and> isFenceLine e r1 \<and>
         (\<forall>m. r0 + 1 \<le> m \<and> m < r1 \<longrightarrow> \<not> isFenceLine e m))" by blast
    from c1 show ?thesis
    proof
      assume b: "r1 = - 1 \<and> (\<forall>m. r0 + 1 \<le> m \<and> m < lineCount e \<longrightarrow> \<not> isFenceLine e m)"
      then have "findFenceInfo e pos = Some absent"
        using False r0 r1 ne by (simp add: findFenceInfo_def)
      moreover have "\<forall>m. r0 < m \<and> m < lineCount e \<longrightarrow> \<not> isFenceLine e m"
        using b by auto
      ultimately show ?thesis using a by blast
    next
      assume b: "r0 + 1 \<le> r1 \<and> r1 < lineCount e \<and> isFenceLine e r1 \<and>
         (\<forall>m. r0 + 1 \<le> m \<and> m < r1 \<longrightarrow> \<not> isFenceLine e m)"
      then have ne1: "r1 \<noteq> - 1" using a by auto
      obtain l where l: "getLine e r0 = Some l"
        using a by (auto simp: isFenceLine_def split: option.splits)
      have "findFenceInfo e pos = Some \<lparr>inside = (r0 < line pos \<and> line pos < r1),
              lang = extractFenceLang l, startLine = r0, endLine = r1\<rparr>"
        using False r0 r1 ne ne1 l by (simp add: findFenceInfo_def)
      moreover have "\<forall>m. r0 < m \<and> m < r1 \<longrightarrow> \<not> isFenceLine e m" using b by auto
      moreover have "r0 < r1" using b by simp
      ultimately show ?thesis using a b l by blast
    qed
  qed
qed

subsection \<open>The language tag\<close>

lemma lowerChar_eq_iff:
  assumes "((97::nat) \<le> of_char b \<and> of_char b \<le> (122::nat)) \<or> of_char b < (65::nat)"
  shows "lowerChar a = b \<longleftrightarrow>
     (a = b \<or> ((97::nat) \<le> of_char b \<and> of_char b \<le> (122::nat) \<and> of_char a + 32 = (of_char b :: nat)))"
proof -
  define n where "n = (of_char a :: nat)"
  define m where "m = (of_char b :: nat)"
  have am: "(97 \<le> m \<and> m \<le> 122) \<or> m < 65" using assms by (simp add: m_def)
  have same: "a = b \<Longrightarrow> n = m" by (simp add: n_def m_def)
  show ?thesis
  proof (cases "(65 \<le> n \<and> n \<le> 90) \<or> (192 \<le> n \<and> n \<le> 222 \<and> n \<noteq> 215)")
    case True
    then have lc: "lowerChar a = char_of (n + 32)"
      by (auto simp add: lowerChar_def Let_def n_def)
    have small: "n + 32 < 256" using True by auto
    have "(of_char (lowerChar a) :: nat) = n + 32"
      unfolding lc using small by (simp add: of_char_of)
    then have fwd: "lowerChar a = b \<Longrightarrow> n + 32 = m" by (simp add: m_def)
    have bwd: "n + 32 = m \<Longrightarrow> lowerChar a = b"
      unfolding lc by (simp add: m_def)
    have nab: "a \<noteq> b" using same True am by auto
    have rng: "n + 32 = m \<Longrightarrow> 97 \<le> m \<and> m \<le> 122" using True am by auto
    show ?thesis
      unfolding n_def [symmetric] m_def [symmetric] using fwd bwd nab rng by blast
  next
    case False
    then have lc: "lowerChar a = a" by (auto simp add: lowerChar_def Let_def n_def)
    have "\<not> (97 \<le> m \<and> m \<le> 122 \<and> n + 32 = m)" using False by auto
    then show ?thesis unfolding n_def [symmetric] m_def [symmetric] lc by blast
  qed
qed

lemma toLowerCase_eq_iff:
  "(\<forall>b\<in>set w. ((97::nat) \<le> of_char b \<and> of_char b \<le> (122::nat)) \<or> of_char b < (65::nat)) \<Longrightarrow>
   toLowerCase t = w \<longleftrightarrow> matchesIgnoringCase t w"
proof (induction t arbitrary: w)
  case Nil
  then show ?case by (auto simp: toLowerCase_def matchesIgnoringCase_def)
next
  case (Cons a t)
  show ?case
  proof (cases w)
    case Nil
    then show ?thesis by (simp add: toLowerCase_def matchesIgnoringCase_def)
  next
    case (Cons b w')
    have b: "((97::nat) \<le> of_char b \<and> of_char b \<le> (122::nat)) \<or> of_char b < (65::nat)"
      using Cons.prems Cons by simp
    have "toLowerCase t = w' \<longleftrightarrow> matchesIgnoringCase t w'"
      using Cons.IH [of w'] Cons.prems Cons by simp
    then show ?thesis
      using lowerChar_eq_iff [OF b, of a] Cons
      by (simp add: toLowerCase_def matchesIgnoringCase_def)
  qed
qed

lemma isPythonLang_iff:
  "isPythonLang lg \<longleftrightarrow>
     (\<exists>t. lg = Some t \<and>
        (matchesIgnoringCase t ''python'' \<or> matchesIgnoringCase t ''py'' \<or>
         matchesIgnoringCase t ''python3'' \<or> matchesIgnoringCase t ''py3''))"
proof (cases lg)
  case None
  then show ?thesis by (simp add: isPythonLang_def)
next
  case (Some t)
  have 1: "toLowerCase t = ''python'' \<longleftrightarrow> matchesIgnoringCase t ''python''"
    by (rule toLowerCase_eq_iff) simp
  have 2: "toLowerCase t = ''py'' \<longleftrightarrow> matchesIgnoringCase t ''py''"
    by (rule toLowerCase_eq_iff) simp
  have 3: "toLowerCase t = ''python3'' \<longleftrightarrow> matchesIgnoringCase t ''python3''"
    by (rule toLowerCase_eq_iff) simp
  have 4: "toLowerCase t = ''py3'' \<longleftrightarrow> matchesIgnoringCase t ''py3''"
    by (rule toLowerCase_eq_iff) simp
  have e: "t = [] \<Longrightarrow> \<not> (matchesIgnoringCase t ''python'' \<or> matchesIgnoringCase t ''py'' \<or>
         matchesIgnoringCase t ''python3'' \<or> matchesIgnoringCase t ''py3'')"
    by (simp add: matchesIgnoringCase_def)
  show ?thesis using Some 1 2 3 4 e by (auto simp: isPythonLang_def Let_def)
qed

text \<open>On a delimiter line that is a run of three or more backticks followed by a tag of
  allowed characters, \<^verbatim>\<open>extractFenceLang\<close> returns the tag as written, and \<open>null\<close> when
  there is none.\<close>

lemma dropWhile_hd: "xs = [] \<or> \<not> P (hd xs) \<Longrightarrow> dropWhile P xs = xs"
  by (cases xs) auto

lemma extractFenceLang_plain:
  assumes "3 \<le> n" and "\<forall>c\<in>set tag. langChar c"
  shows "extractFenceLang (replicate n backtick @ tag) = (if tag = [] then None else Some tag)"
proof -
  let ?s = "replicate n backtick @ tag"
  obtain m where n: "n = Suc (Suc (Suc m))"
    using assms(1) by (metis Suc_le_D numeral_3_eq_3 Suc_le_mono)
  have bw: "\<not> isWhiteSpace backtick" by (simp add: isWhiteSpace_def backtick_def)
  have tw: "\<And>c. c \<in> set tag \<Longrightarrow> \<not> isWhiteSpace c \<and> c \<noteq> backtick"
    using assms(2) by (auto simp: langChar_def)
  have d1: "dropWhile isWhiteSpace ?s = ?s"
    using bw by (simp add: n)
  have r: "rev ?s = rev tag @ replicate n backtick" by simp
  have "rev ?s = [] \<or> \<not> isWhiteSpace (hd (rev ?s))"
  proof (cases "tag = []")
    case True
    then have "rev ?s = backtick # replicate (Suc (Suc m)) backtick"
      unfolding r by (simp add: n)
    then show ?thesis using bw by simp
  next
    case False
    then have "hd (rev ?s) = last tag" unfolding r by (simp add: hd_rev)
    then show ?thesis using tw [of "last tag"] False by simp
  qed
  then have d2: "dropWhile isWhiteSpace (rev ?s) = rev ?s" by (rule dropWhile_hd)
  have tr: "trim ?s = ?s" by (simp only: trim_def d1 d2 rev_rev_ident)
  have sw: "startsWith ?s fenceMark" by (simp add: startsWith_def fenceMark_def n)
  have "dropWhile (\<lambda>c. c = backtick) ?s = dropWhile (\<lambda>c. c = backtick) tag"
    by (simp add: dropWhile_append)
  also have "\<dots> = tag" using tw by (intro dropWhile_hd) (cases tag, auto)
  finally have d3: "dropWhile (\<lambda>c. c = backtick) ?s = tag" .
  have d4: "dropWhile isWhiteSpace tag = tag" using tw by (intro dropWhile_hd) (cases tag, auto)
  have d5: "takeWhile langChar tag = tag" using assms(2) by (simp add: takeWhile_eq_all_conv)
  show ?thesis
    unfolding extractFenceLang_def tr Let_def d3 d4 d5 using sw by simp
qed

section \<open>Delimiter lines\<close>

text \<open>
  A line that starts with the fence mark still does so when trimmed. So the test of the
  two loops and the test of \<^verbatim>\<open>extractFenceLang\<close> differ only on indented delimiter
  lines, and agree on every line of a document that has none.
\<close>

lemma trim_keeps_fence:
  assumes "startsWith l fenceMark"
  shows "startsWith (trim l) fenceMark"
proof -
  have bw: "\<not> isWhiteSpace backtick" by (simp add: isWhiteSpace_def backtick_def)
  obtain rest where l: "l = fenceMark @ rest"
    using assms by (metis append_take_drop_id startsWith_def)
  have d1: "dropWhile isWhiteSpace l = l" using bw by (simp add: l fenceMark_def)
  have rv: "rev l = rev rest @ fenceMark" by (simp add: l fenceMark_def)
  have df: "dropWhile isWhiteSpace fenceMark = fenceMark" using bw by (simp add: fenceMark_def)
  have "\<exists>zs. dropWhile isWhiteSpace (rev l) = zs @ fenceMark"
  proof (cases "\<forall>x\<in>set (rev rest). isWhiteSpace x")
    case True
    then have "dropWhile isWhiteSpace (rev l) = [] @ fenceMark"
      unfolding rv by (simp add: dropWhile_append df)
    then show ?thesis by blast
  next
    case False
    then have "dropWhile isWhiteSpace (rev l) = dropWhile isWhiteSpace (rev rest) @ fenceMark"
      unfolding rv by (simp only: dropWhile_append if_False)
    then show ?thesis by blast
  qed
  then obtain zs where "dropWhile isWhiteSpace (rev l) = zs @ fenceMark" by blast
  then have "trim l = fenceMark @ rev zs" by (simp add: trim_def d1 fenceMark_def)
  then show ?thesis by (simp add: startsWith_def)
qed

lemma isDelimiterLine_eq:
  assumes "noIndentedDelimiters e"
  shows "isDelimiterLine e i = isFenceLine e i"
proof (cases "getLine e i")
  case None
  then show ?thesis by (simp add: isDelimiterLine_def isFenceLine_def)
next
  case (Some l)
  then have "l \<in> set (splitLines (doc e))"
    by (auto simp: getLine_def lineCount_def split: if_splits)
  then have "\<not> indentedDelimiter l"
    using assms by (simp add: noIndentedDelimiters_def list_all_iff)
  then have "startsWith (trim l) fenceMark = startsWith l fenceMark"
    using trim_keeps_fence [of l] by (auto simp: indentedDelimiter_def)
  then show ?thesis using Some by (simp add: isDelimiterLine_def isFenceLine_def)
qed

section \<open>The result of the fence locator\<close>

lemma findFenceInfo_three_cases:
  assumes "line pos < lineCount e"
  obtains
    (none_before) "findFenceInfo e pos = Some absent"
      "\<forall>k. 0 \<le> k \<and> k \<le> line pos \<longrightarrow> \<not> isFenceLine e k"
  | (none_after) k where "findFenceInfo e pos = Some absent"
      "0 \<le> k" "k \<le> line pos" "isFenceLine e k"
      "\<forall>m. k < m \<and> m < lineCount e \<longrightarrow> \<not> isFenceLine e m"
  | (pair) k c l where
      "findFenceInfo e pos =
         Some \<lparr>inside = (k < line pos), lang = extractFenceLang l, startLine = k, endLine = c\<rparr>"
      "0 \<le> k" "k \<le> line pos" "line pos < c" "c < lineCount e"
      "isFenceLine e k" "isFenceLine e c" "getLine e k = Some l"
      "\<forall>m. k < m \<and> m < c \<longrightarrow> \<not> isFenceLine e m"
proof -
  from findFenceInfo_cases [OF assms] obtain r where r: "findFenceInfo e pos = Some r"
    and cs: "(r = absent \<and> (\<forall>k. 0 \<le> k \<and> k \<le> line pos \<longrightarrow> \<not> isFenceLine e k)) \<or>
      (\<exists>k. 0 \<le> k \<and> k \<le> line pos \<and> isFenceLine e k \<and>
           (\<forall>m. k < m \<and> m \<le> line pos \<longrightarrow> \<not> isFenceLine e m) \<and>
           ((r = absent \<and> (\<forall>m. k < m \<and> m < lineCount e \<longrightarrow> \<not> isFenceLine e m)) \<or>
            (\<exists>c l. k < c \<and> c < lineCount e \<and> isFenceLine e c \<and>
                (\<forall>m. k < m \<and> m < c \<longrightarrow> \<not> isFenceLine e m) \<and>
                getLine e k = Some l \<and>
                r = \<lparr>inside = (k < line pos \<and> line pos < c), lang = extractFenceLang l,
                     startLine = k, endLine = c\<rparr>)))" by blast
  from cs show thesis
  proof (elim disjE exE conjE)
    assume "r = absent" "\<forall>k. 0 \<le> k \<and> k \<le> line pos \<longrightarrow> \<not> isFenceLine e k"
    then show thesis using r none_before by simp
  next
    fix k assume "0 \<le> k" "k \<le> line pos" "isFenceLine e k" "r = absent"
      "\<forall>m. k < m \<and> m < lineCount e \<longrightarrow> \<not> isFenceLine e m"
    then show thesis using r none_after by simp
  next
    fix k c l
    assume k: "0 \<le> k" "k \<le> line pos" "isFenceLine e k"
      and kn: "\<forall>m. k < m \<and> m \<le> line pos \<longrightarrow> \<not> isFenceLine e m"
      and c: "k < c" "c < lineCount e" "isFenceLine e c"
      and cn: "\<forall>m. k < m \<and> m < c \<longrightarrow> \<not> isFenceLine e m"
      and l: "getLine e k = Some l"
      and req: "r = \<lparr>inside = (k < line pos \<and> line pos < c), lang = extractFenceLang l,
                     startLine = k, endLine = c\<rparr>"
    have "\<not> c \<le> line pos" using kn c by blast
    then have pc: "line pos < c" by simp
    then have "r = \<lparr>inside = (k < line pos), lang = extractFenceLang l,
                     startLine = k, endLine = c\<rparr>" using req by simp
    then show thesis using r pair [of k l c] k c cn l pc by simp
  qed
qed

text \<open>
  On a fence whose delimiter lines start with the fence mark (no indentation) and whose
  content lines do not, a cursor on a content line gets \<open>inside = true\<close>, the two
  delimiter lines as \<open>startLine\<close> and \<open>endLine\<close>, and the tag \<^verbatim>\<open>extractFenceLang\<close> reads
  from the opening line; \<^verbatim>\<open>isPythonLang\<close> accepts a tag exactly when it is one of python,
  py, python3, py3 up to the case of its letters.
\<close>

lemma findFenceInfo_unindented_fence:
  assumes "0 \<le> s" and "s < line pos" and "line pos < c" and "c < lineCount e"
    and "getLine e s = Some ol" and "startsWith ol fenceMark"
    and "isFenceLine e c"
    and "\<forall>m. s < m \<and> m < c \<longrightarrow> \<not> isFenceLine e m"
  shows "findFenceInfo e pos =
           Some \<lparr>inside = True, lang = extractFenceLang ol, startLine = s, endLine = c\<rparr>
         \<and> (isPythonLang (extractFenceLang ol) \<longleftrightarrow>
              (\<exists>t. extractFenceLang ol = Some t \<and>
                 (matchesIgnoringCase t ''python'' \<or> matchesIgnoringCase t ''py'' \<or>
                  matchesIgnoringCase t ''python3'' \<or> matchesIgnoringCase t ''py3'')))"
proof -
  have fs: "isFenceLine e s" using assms(5,6) by (simp add: isFenceLine_def)
  have lp: "line pos < lineCount e" using assms(3,4) by simp
  from findFenceInfo_cases [OF lp] obtain r where r: "findFenceInfo e pos = Some r"
    and cs: "(r = absent \<and> (\<forall>k. 0 \<le> k \<and> k \<le> line pos \<longrightarrow> \<not> isFenceLine e k)) \<or>
      (\<exists>k. 0 \<le> k \<and> k \<le> line pos \<and> isFenceLine e k \<and>
           (\<forall>m. k < m \<and> m \<le> line pos \<longrightarrow> \<not> isFenceLine e m) \<and>
           ((r = absent \<and> (\<forall>m. k < m \<and> m < lineCount e \<longrightarrow> \<not> isFenceLine e m)) \<or>
            (\<exists>c l. k < c \<and> c < lineCount e \<and> isFenceLine e c \<and>
                (\<forall>m. k < m \<and> m < c \<longrightarrow> \<not> isFenceLine e m) \<and>
                getLine e k = Some l \<and>
                r = \<lparr>inside = (k < line pos \<and> line pos < c), lang = extractFenceLang l,
                     startLine = k, endLine = c\<rparr>)))" by blast
  have no1: "\<not> (\<forall>k. 0 \<le> k \<and> k \<le> line pos \<longrightarrow> \<not> isFenceLine e k)"
    using fs assms(1,2) by (meson less_imp_le)
  from cs no1 obtain k where k: "0 \<le> k" "k \<le> line pos" "isFenceLine e k"
    and kn: "\<forall>m. k < m \<and> m \<le> line pos \<longrightarrow> \<not> isFenceLine e m"
    and rest: "(r = absent \<and> (\<forall>m. k < m \<and> m < lineCount e \<longrightarrow> \<not> isFenceLine e m)) \<or>
            (\<exists>c l. k < c \<and> c < lineCount e \<and> isFenceLine e c \<and>
                (\<forall>m. k < m \<and> m < c \<longrightarrow> \<not> isFenceLine e m) \<and>
                getLine e k = Some l \<and>
                r = \<lparr>inside = (k < line pos \<and> line pos < c), lang = extractFenceLang l,
                     startLine = k, endLine = c\<rparr>)" by blast
  have "\<not> k < s" using kn fs assms(2) by (meson less_imp_le)
  moreover have "\<not> s < k" using assms(8) k assms(3) by (meson le_less_trans)
  ultimately have ks: "k = s" by simp
  have no2: "\<not> (\<forall>m. k < m \<and> m < lineCount e \<longrightarrow> \<not> isFenceLine e m)"
    using assms(2,3,4,7) ks by (meson less_trans)
  from rest no2 obtain c' l where c': "k < c'" "c' < lineCount e" "isFenceLine e c'"
    and cn: "\<forall>m. k < m \<and> m < c' \<longrightarrow> \<not> isFenceLine e m"
    and l: "getLine e k = Some l"
    and req: "r = \<lparr>inside = (k < line pos \<and> line pos < c'), lang = extractFenceLang l,
                     startLine = k, endLine = c'\<rparr>" by blast
  have "\<not> c' < c" using assms(8) c' ks by blast
  moreover have "\<not> c < c'" using cn assms(2,3,7) ks by (meson less_trans)
  ultimately have cc: "c' = c" by simp
  have "l = ol" using l ks assms(5) by simp
  then have "r = \<lparr>inside = True, lang = extractFenceLang ol, startLine = s, endLine = c\<rparr>"
    using req ks cc assms(2,3) by simp
  then show ?thesis using r isPythonLang_iff [of "extractFenceLang ol"] by simp
qed

lemma findFenceInfo_unindented_fence_example:
  "findFenceInfo exFence \<lparr>line = 1, ch = 5\<rparr> =
     Some \<lparr>inside = True, lang = Some ''python'', startLine = 0, endLine = 2\<rparr>
   \<and> isPythonLang (Some ''python'')"
proof -
  have h1: "getLine exFence 0 = Some ''```python''" by code_simp
  have h2: "startsWith ''```python'' fenceMark" by code_simp
  have h3: "isFenceLine exFence 2" by code_simp
  have h4: "\<not> isFenceLine exFence 1" by code_simp
  have h5: "\<forall>m. (0::int) < m \<and> m < 2 \<longrightarrow> \<not> isFenceLine exFence m"
  proof (intro allI impI)
    fix m :: int assume "0 < m \<and> m < 2"
    then have "m = 1" by simp
    then show "\<not> isFenceLine exFence m" using h4 by simp
  qed
  have h6: "(2::int) < lineCount exFence" by code_simp
  have h7: "extractFenceLang ''```python'' = Some ''python''" by code_simp
  have h8: "matchesIgnoringCase ''python'' ''python''" by code_simp
  show ?thesis
    using findFenceInfo_unindented_fence [of 0 "\<lparr>line = 1, ch = 5\<rparr>" 2 exFence "''```python''", OF _ _ _ _ h1 h2 h3 h5]
      h6 h7 h8 by simp
qed

text \<open>The two results below are stated for the test of the loops; the claims restate them
  for delimiter lines on documents without indented delimiter lines.\<close>

lemma findFenceInfo_inside_raw:
  assumes "line pos < lineCount e"
  shows "\<exists>r. findFenceInfo e pos = Some r \<and>
     (inside r \<longleftrightarrow>
        (\<not> isFenceLine e (line pos) \<and>
         (\<exists>k. 0 \<le> k \<and> k < line pos \<and> isFenceLine e k) \<and>
         (\<exists>c. line pos < c \<and> c < lineCount e \<and> isFenceLine e c))) \<and>
     ((\<forall>k. 0 \<le> k \<and> k \<le> line pos \<longrightarrow> \<not> isFenceLine e k) \<or>
      (\<forall>c. line pos < c \<and> c < lineCount e \<longrightarrow> \<not> isFenceLine e c) \<longrightarrow> r = absent) \<and>
     (inside r \<longrightarrow>
        startLine r < line pos \<and> line pos < endLine r \<and>
        isFenceLine e (startLine r) \<and> isFenceLine e (endLine r) \<and>
        (\<forall>m. startLine r < m \<and> m < endLine r \<longrightarrow> \<not> isFenceLine e m) \<and>
        (\<exists>l. getLine e (startLine r) = Some l \<and> lang r = extractFenceLang l))"
  using assms
proof (cases rule: findFenceInfo_three_cases)
  case none_before
  have "\<not> (\<exists>k. 0 \<le> k \<and> k < line pos \<and> isFenceLine e k)"
    using none_before(2) by (meson less_imp_le)
  then show ?thesis using none_before(1) by (simp add: absent_def)
next
  case (none_after k)
  have "\<not> (\<exists>c. line pos < c \<and> c < lineCount e \<and> isFenceLine e c)"
    using none_after(3,5) by (meson le_less_trans)
  then show ?thesis using none_after(1) by (simp add: absent_def)
next
  case (pair k c l)
  let ?r = "\<lparr>inside = (k < line pos), lang = extractFenceLang l, startLine = k, endLine = c\<rparr>"
  have a: "k < line pos \<Longrightarrow> \<not> isFenceLine e (line pos)" using pair(4,9) by blast
  have b: "\<not> isFenceLine e (line pos) \<Longrightarrow> k < line pos"
    using pair(3,6) by (cases "k = line pos") auto
  have c1: "\<exists>k. 0 \<le> k \<and> k \<le> line pos \<and> isFenceLine e k" using pair(2,3,6) by blast
  have c2: "\<exists>c. line pos < c \<and> c < lineCount e \<and> isFenceLine e c" using pair(4,5,7) by blast
  have c3: "k < line pos \<Longrightarrow> \<exists>k. 0 \<le> k \<and> k < line pos \<and> isFenceLine e k"
    using pair(2,6) by blast
  have i: "inside ?r \<longleftrightarrow> (\<not> isFenceLine e (line pos) \<and>
         (\<exists>k. 0 \<le> k \<and> k < line pos \<and> isFenceLine e k) \<and>
         (\<exists>c. line pos < c \<and> c < lineCount e \<and> isFenceLine e c))"
    using a b c2 c3 by auto
  have n: "\<not> ((\<forall>k. 0 \<le> k \<and> k \<le> line pos \<longrightarrow> \<not> isFenceLine e k) \<or>
      (\<forall>c. line pos < c \<and> c < lineCount e \<longrightarrow> \<not> isFenceLine e c))"
    using c1 c2 by blast
  have p: "inside ?r \<longrightarrow>
        startLine ?r < line pos \<and> line pos < endLine ?r \<and>
        isFenceLine e (startLine ?r) \<and> isFenceLine e (endLine ?r) \<and>
        (\<forall>m. startLine ?r < m \<and> m < endLine ?r \<longrightarrow> \<not> isFenceLine e m) \<and>
        (\<exists>l. getLine e (startLine ?r) = Some l \<and> lang ?r = extractFenceLang l)"
    using pair(4,6,7,8,9) by simp
  show ?thesis using pair(1) i n p by blast
qed

lemma findFenceInfo_lines_raw:
  assumes "line pos < lineCount e"
  shows "\<exists>r. findFenceInfo e pos = Some r \<and>
     (inside r \<longrightarrow> startLine r < endLine r) \<and>
     (isFenceLine e (line pos) \<longrightarrow> \<not> inside r) \<and>
     (r = absent \<or>
      (0 \<le> startLine r \<and> startLine r \<le> line pos \<and> line pos < endLine r \<and>
       endLine r < lineCount e \<and> isFenceLine e (startLine r) \<and> isFenceLine e (endLine r) \<and>
       (\<forall>m. startLine r < m \<and> m < endLine r \<longrightarrow> \<not> isFenceLine e m))) \<and>
     (r = absent \<longleftrightarrow>
        ((\<forall>k. 0 \<le> k \<and> k \<le> line pos \<longrightarrow> \<not> isFenceLine e k) \<or>
         (\<forall>c. line pos < c \<and> c < lineCount e \<longrightarrow> \<not> isFenceLine e c)))"
  using assms
proof (cases rule: findFenceInfo_three_cases)
  case none_before
  then show ?thesis by (simp add: absent_def)
next
  case (none_after k)
  have "\<forall>c. line pos < c \<and> c < lineCount e \<longrightarrow> \<not> isFenceLine e c"
    using none_after(3,5) by (meson le_less_trans)
  then show ?thesis using none_after(1) by (simp add: absent_def)
next
  case (pair k c l)
  let ?r = "\<lparr>inside = (k < line pos), lang = extractFenceLang l, startLine = k, endLine = c\<rparr>"
  have kc: "k < c" using pair(3,4) by simp
  have na: "?r \<noteq> absent" using pair(2) by (simp add: absent_def)
  have c1: "\<exists>k. 0 \<le> k \<and> k \<le> line pos \<and> isFenceLine e k" using pair(2,3,6) by blast
  have c2: "\<exists>c. line pos < c \<and> c < lineCount e \<and> isFenceLine e c" using pair(4,5,7) by blast
  have nb: "\<not> ((\<forall>k. 0 \<le> k \<and> k \<le> line pos \<longrightarrow> \<not> isFenceLine e k) \<or>
         (\<forall>c. line pos < c \<and> c < lineCount e \<longrightarrow> \<not> isFenceLine e c))"
    using c1 c2 by blast
  have on: "isFenceLine e (line pos) \<Longrightarrow> \<not> k < line pos" using pair(4,9) by blast
  have "(inside ?r \<longrightarrow> startLine ?r < endLine ?r) \<and>
     (isFenceLine e (line pos) \<longrightarrow> \<not> inside ?r) \<and>
     (?r = absent \<or>
      (0 \<le> startLine ?r \<and> startLine ?r \<le> line pos \<and> line pos < endLine ?r \<and>
       endLine ?r < lineCount e \<and> isFenceLine e (startLine ?r) \<and> isFenceLine e (endLine ?r) \<and>
       (\<forall>m. startLine ?r < m \<and> m < endLine ?r \<longrightarrow> \<not> isFenceLine e m))) \<and>
     (?r = absent \<longleftrightarrow>
        ((\<forall>k. 0 \<le> k \<and> k \<le> line pos \<longrightarrow> \<not> isFenceLine e k) \<or>
         (\<forall>c. line pos < c \<and> c < lineCount e \<longrightarrow> \<not> isFenceLine e c)))"
    using kc na nb on pair(2-7,9) by simp
  then show ?thesis using pair(1) by blast
qed

section \<open>Claims about the fence locator\<close>

text \<open>
  Claim C5: for every well-formed fence and a cursor on a content line,
  \<^verbatim>\<open>findFenceInfo\<close> returns \<open>inside = true\<close> with the two delimiter lines and the tag
  parsed from the opening line, and the block is Python-eligible when the tag is one
  of python, py, python3, py3. The code does so only for fences whose delimiter lines
  are not indented (\<open>findFenceInfo_unindented_fence\<close>). For a fence inside a list item,
  indented with it, both delimiter lines pass the test of \<^verbatim>\<open>extractFenceLang\<close>, which
  reads the tag \<open>py\<close> from the opening line, and \<^verbatim>\<open>isPythonLang\<close> accepts that tag;
  yet the loops of \<^verbatim>\<open>findFenceInfo\<close> test the untrimmed lines, the cursor on the content
  line gets the absence-marker.
\<close>

theorem findFenceInfo_fence_in_list_item:
  "findFenceInfo exListItem \<lparr>line = 2, ch = 2\<rparr> = Some absent
   \<and> isDelimiterLine exListItem 1 \<and> isDelimiterLine exListItem 3
   \<and> getLine exListItem 1 = Some ''  ```py''
   \<and> extractFenceLang ''  ```py'' = Some ''py''
   \<and> isPythonLang (Some ''py'')"
  by code_simp

text \<open>A paste with the cursor on that content line is not claimed by the handler.\<close>

lemma onPaste_fence_in_list_item:
  "\<not> preventDefaultCalled (onPaste exOsEcho exPlugin (exPaste 1000 (Some ''y = 2'')) exListItem)"
  by code_simp

text \<open>
  Claim C1, as amended. In a document without indented delimiter lines, where the
  delimiter lines are the lines that start with three backticks, \<^verbatim>\<open>findFenceInfo\<close>
  pairs the nearest delimiter line before the cursor with the next delimiter line after
  it, whatever fences the document has elsewhere. For a cursor line of the document it
  returns \<open>inside = true\<close> exactly when the cursor line is not a delimiter line, some
  delimiter line lies before it and some delimiter line lies after it; then
  \<open>startLine\<close> is a delimiter line before the cursor line, \<open>endLine\<close> a delimiter line
  after it, no delimiter line lies between the two, and \<open>lang\<close> is what
  \<^verbatim>\<open>extractFenceLang\<close> reads from line \<open>startLine\<close>. It returns the absence-marker when
  no delimiter line lies at or before the cursor line, or none after it. So a line
  between the closing delimiter of one fence and the opening delimiter of a later fence
  gets \<open>inside = true\<close>, with the closing delimiter as \<open>startLine\<close>, the later opening
  delimiter as \<open>endLine\<close>, and \<open>lang\<close> read from the closing delimiter line.
\<close>

theorem findFenceInfo_inside_iff:
  assumes "noIndentedDelimiters e" and "line pos < lineCount e"
  shows "\<exists>r. findFenceInfo e pos = Some r \<and>
     (inside r \<longleftrightarrow>
        (\<not> isDelimiterLine e (line pos) \<and>
         (\<exists>k. 0 \<le> k \<and> k < line pos \<and> isDelimiterLine e k) \<and>
         (\<exists>c. line pos < c \<and> c < lineCount e \<and> isDelimiterLine e c))) \<and>
     ((\<forall>k. 0 \<le> k \<and> k \<le> line pos \<longrightarrow> \<not> isDelimiterLine e k) \<or>
      (\<forall>c. line pos < c \<and> c < lineCount e \<longrightarrow> \<not> isDelimiterLine e c) \<longrightarrow> r = absent) \<and>
     (inside r \<longrightarrow>
        startLine r < line pos \<and> line pos < endLine r \<and>
        isDelimiterLine e (startLine r) \<and> isDelimiterLine e (endLine r) \<and>
        (\<forall>m. startLine r < m \<and> m < endLine r \<longrightarrow> \<not> isDelimiterLine e m) \<and>
        (\<exists>l. getLine e (startLine r) = Some l \<and> lang r = extractFenceLang l))"
  unfolding isDelimiterLine_eq [OF assms(1)]
  by (rule findFenceInfo_inside_raw [OF assms(2)])

text \<open>The theorem of C1 at the line of prose between two fences: \<open>startLine\<close> is the
  closing delimiter of the first fence (line 2), \<open>endLine\<close> the opening delimiter of the
  second (line 4), and \<open>lang\<close> is absent, read from the bare closing delimiter.\<close>

theorem findFenceInfo_inside_iff_witness:
  "\<exists>r. findFenceInfo exTwoFences \<lparr>line = 3, ch = 0\<rparr> = Some r \<and> inside r \<and>
       startLine r = 2 \<and> endLine r = 4 \<and> lang r = None"
proof -
  let ?p = "\<lparr>line = 3, ch = 0\<rparr>"
  have h0: "noIndentedDelimiters exTwoFences" by code_simp
  have h: "line ?p < lineCount exTwoFences" by code_simp
  have f3: "\<not> isDelimiterLine exTwoFences 3" by code_simp
  have f2: "isDelimiterLine exTwoFences 2" by code_simp
  have f4: "isDelimiterLine exTwoFences 4" by code_simp
  have l4: "(4::int) < lineCount exTwoFences" by code_simp
  have g2: "getLine exTwoFences 2 = Some ''```''" by code_simp
  have x2: "extractFenceLang ''```'' = None" by code_simp
  have k: "\<exists>k. 0 \<le> k \<and> k < 3 \<and> isDelimiterLine exTwoFences k"
    using f2 by (intro exI [of _ 2]) simp
  have c: "\<exists>c. 3 < c \<and> c < lineCount exTwoFences \<and> isDelimiterLine exTwoFences c"
    using f4 l4 by (intro exI [of _ 4]) simp
  from findFenceInfo_inside_iff [OF h0 h] obtain r where
    r: "findFenceInfo exTwoFences ?p = Some r"
    and i: "inside r \<longleftrightarrow>
        (\<not> isDelimiterLine exTwoFences (line ?p) \<and>
         (\<exists>k. 0 \<le> k \<and> k < line ?p \<and> isDelimiterLine exTwoFences k) \<and>
         (\<exists>c. line ?p < c \<and> c < lineCount exTwoFences \<and> isDelimiterLine exTwoFences c))"
    and p: "inside r \<longrightarrow>
        startLine r < line ?p \<and> line ?p < endLine r \<and>
        isDelimiterLine exTwoFences (startLine r) \<and> isDelimiterLine exTwoFences (endLine r) \<and>
        (\<forall>m. startLine r < m \<and> m < endLine r \<longrightarrow> \<not> isDelimiterLine exTwoFences m) \<and>
        (\<exists>l. getLine exTwoFences (startLine r) = Some l \<and> lang r = extractFenceLang l)"
    by blast
  have ins: "inside r" using i f3 k c by simp
  then have s3: "startLine r < 3" and e3: "3 < endLine r"
    and nb: "\<forall>m. startLine r < m \<and> m < endLine r \<longrightarrow> \<not> isDelimiterLine exTwoFences m"
    and lg: "\<exists>l. getLine exTwoFences (startLine r) = Some l \<and> lang r = extractFenceLang l"
    using p by simp_all
  have "\<not> startLine r < 2"
  proof
    assume "startLine r < 2"
    then have "startLine r < 2 \<and> 2 < endLine r" using e3 by linarith
    then have "\<not> isDelimiterLine exTwoFences 2" using nb by blast
    then show False using f2 by simp
  qed
  then have s: "startLine r = 2" using s3 by linarith
  have "\<not> 4 < endLine r"
  proof
    assume "4 < endLine r"
    then have "startLine r < 4 \<and> 4 < endLine r" using s by linarith
    then have "\<not> isDelimiterLine exTwoFences 4" using nb by blast
    then show False using f4 by simp
  qed
  then have en: "endLine r = 4" using e3 by linarith
  have "lang r = None" using lg s g2 x2 by auto
  then show ?thesis using r ins s en by blast
qed

text \<open>
  Claim C1 as stated fails: line 3 lies between a closed Python fence (lines 0 to 2) and
  a later fence (lines 4 to 6), outside any fence, and \<^verbatim>\<open>findFenceInfo\<close> answers
  \<open>inside = true\<close>, taking the closing delimiter of the first fence as the opening one.
\<close>

theorem findFenceInfo_between_fences:
  "findFenceInfo exTwoFences \<lparr>line = 3, ch = 0\<rparr> =
     Some \<lparr>inside = True, lang = None, startLine = 2, endLine = 4\<rparr>"
  by code_simp

text \<open>
  Claim C8, as amended. In a document without indented delimiter lines, where the
  delimiter lines are the lines that start with three backticks, the \<open>FenceInfo\<close>
  returned for a cursor line of the document satisfies \<open>startLine < endLine\<close> whenever
  \<open>inside\<close> is true; a cursor on a delimiter line yields \<open>inside = false\<close>; the result
  is the absence-marker (both lines \<open>-1\<close>) exactly when no delimiter line lies at or
  before the cursor line or none lies after it; otherwise, also when \<open>inside\<close> is false,
  \<open>startLine\<close> is the nearest delimiter line at or before the cursor line and
  \<open>endLine\<close> the next delimiter line after it, with
  \<open>0 \<le> startLine \<le> cursor line < endLine\<close>.
\<close>

theorem findFenceInfo_lines:
  assumes "noIndentedDelimiters e" and "line pos < lineCount e"
  shows "\<exists>r. findFenceInfo e pos = Some r \<and>
     (inside r \<longrightarrow> startLine r < endLine r) \<and>
     (isDelimiterLine e (line pos) \<longrightarrow> \<not> inside r) \<and>
     (r = absent \<or>
      (0 \<le> startLine r \<and> startLine r \<le> line pos \<and> line pos < endLine r \<and>
       endLine r < lineCount e \<and> isDelimiterLine e (startLine r) \<and>
       isDelimiterLine e (endLine r) \<and>
       (\<forall>m. startLine r < m \<and> m < endLine r \<longrightarrow> \<not> isDelimiterLine e m))) \<and>
     (r = absent \<longleftrightarrow>
        ((\<forall>k. 0 \<le> k \<and> k \<le> line pos \<longrightarrow> \<not> isDelimiterLine e k) \<or>
         (\<forall>c. line pos < c \<and> c < lineCount e \<longrightarrow> \<not> isDelimiterLine e c)))"
  unfolding isDelimiterLine_eq [OF assms(1)]
  by (rule findFenceInfo_lines_raw [OF assms(2)])

text \<open>The theorem of C8 at the opening delimiter line of a fence: \<open>inside\<close> is false and
  the lines reported are 0 and 2.\<close>

theorem findFenceInfo_lines_witness:
  "\<exists>r. findFenceInfo exFence \<lparr>line = 0, ch = 0\<rparr> = Some r \<and> \<not> inside r \<and> r \<noteq> absent
       \<and> startLine r = 0 \<and> endLine r = 2"
proof -
  let ?p = "\<lparr>line = 0, ch = 0\<rparr>"
  have h0: "noIndentedDelimiters exFence" by code_simp
  have h: "line ?p < lineCount exFence" by code_simp
  have f0: "isDelimiterLine exFence 0" by code_simp
  have f1: "\<not> isDelimiterLine exFence 1" by code_simp
  have f2: "isDelimiterLine exFence 2" by code_simp
  have l2: "(2::int) < lineCount exFence" by code_simp
  have l3: "lineCount exFence = 3" by code_simp
  have k: "\<exists>k. 0 \<le> k \<and> k \<le> 0 \<and> isDelimiterLine exFence k"
    using f0 by (intro exI [of _ 0]) simp
  have c: "\<exists>c. 0 < c \<and> c < lineCount exFence \<and> isDelimiterLine exFence c"
    using f2 l2 by (intro exI [of _ 2]) simp
  from findFenceInfo_lines [OF h0 h] obtain r where
    r: "findFenceInfo exFence ?p = Some r"
    and a: "isDelimiterLine exFence (line ?p) \<longrightarrow> \<not> inside r"
    and b: "r = absent \<or>
      (0 \<le> startLine r \<and> startLine r \<le> line ?p \<and> line ?p < endLine r \<and>
       endLine r < lineCount exFence \<and> isDelimiterLine exFence (startLine r) \<and>
       isDelimiterLine exFence (endLine r) \<and>
       (\<forall>m. startLine r < m \<and> m < endLine r \<longrightarrow> \<not> isDelimiterLine exFence m))"
    and d: "r = absent \<longleftrightarrow>
        ((\<forall>k. 0 \<le> k \<and> k \<le> line ?p \<longrightarrow> \<not> isDelimiterLine exFence k) \<or>
         (\<forall>c. line ?p < c \<and> c < lineCount exFence \<longrightarrow> \<not> isDelimiterLine exFence c))"
    by blast
  have na: "r \<noteq> absent" using d k c by auto
  have ni: "\<not> inside r" using a f0 by simp
  have s: "0 \<le> startLine r" "startLine r \<le> 0" "0 < endLine r" "endLine r < 3"
    and de: "isDelimiterLine exFence (endLine r)"
    using b na l3 by simp_all
  have s0: "startLine r = 0" using s by linarith
  have "endLine r = 1 \<or> endLine r = 2" using s by linarith
  then have e2: "endLine r = 2" using de f1 by auto
  show ?thesis using r ni na s0 e2 by blast
qed

text \<open>
  Claim C8 as stated fails: with the cursor on the opening delimiter line no fence
  encloses it and \<open>inside\<close> is false, yet \<open>startLine\<close> and \<open>endLine\<close> are 0 and 2,
  not \<open>-1\<close>.
\<close>

theorem findFenceInfo_on_delimiter:
  "findFenceInfo exFence \<lparr>line = 0, ch = 0\<rparr> =
     Some \<lparr>inside = False, lang = Some ''python'', startLine = 0, endLine = 2\<rparr>"
  by code_simp

text \<open>
  Claim C4: the opening delimiter is the nearest line at or before the cursor whose
  trimmed content begins with three backticks, so a delimiter line with leading white
  space is a delimiter. The loops of \<^verbatim>\<open>findFenceInfo\<close> test the untrimmed line: in a
  fence whose delimiter lines are indented, the cursor on the content line gets the
  absence-marker, although \<^verbatim>\<open>extractFenceLang\<close> trims the same line and reads the
  tag \<open>python\<close> from it.
\<close>

theorem findFenceInfo_indented_fence:
  "findFenceInfo exIndented \<lparr>line = 1, ch = 0\<rparr> = Some absent
   \<and> extractFenceLang ''  ```python'' = Some ''python''"
  by code_simp

section \<open>Offsets and ranges\<close>

lemma lineFrom_Suc:
  "i < length ls \<Longrightarrow> lineFrom ls (Suc i) = lineFrom ls i + Suc (length (ls ! i))"
  by (simp add: lineFrom_def take_Suc_conv_app_nth)

lemma lineFrom_mono: "i \<le> j \<Longrightarrow> lineFrom ls i \<le> lineFrom ls j"
proof (induction j)
  case 0
  then show ?case by simp
next
  case (Suc j)
  show ?case
  proof (cases "i = Suc j")
    case True
    then show ?thesis by simp
  next
    case False
    then have ij: "lineFrom ls i \<le> lineFrom ls j" using Suc by simp
    show ?thesis
    proof (cases "j < length ls")
      case True
      then show ?thesis using ij lineFrom_Suc [of j ls] by simp
    next
      case False
      then have "lineFrom ls (Suc j) = lineFrom ls j" by (simp add: lineFrom_def)
      then show ?thesis using ij by simp
    qed
  qed
qed

lemma splitLines_not_Nil: "splitLines s \<noteq> []"
  by (induction s) (auto split: list.splits)

lemma lineFrom_splitLines:
  "lineFrom (splitLines s) (length (splitLines s)) = Suc (length s)"
proof (induction s)
  case Nil
  then show ?case by (simp add: lineFrom_def)
next
  case (Cons c s)
  obtain l ls where sp: "splitLines s = l # ls"
    using splitLines_not_Nil [of s] by (cases "splitLines s") auto
  show ?case using Cons sp by (simp add: lineFrom_def)
qed

lemma line_end_le_length:
  assumes "i < length (splitLines s)"
  shows "lineFrom (splitLines s) i + length (splitLines s ! i) \<le> length s"
proof -
  have "lineFrom (splitLines s) (Suc i) \<le> lineFrom (splitLines s) (length (splitLines s))"
    using assms by (intro lineFrom_mono) simp
  then show ?thesis using lineFrom_Suc [OF assms] lineFrom_splitLines [of s] by simp
qed

lemma posToOffset_le_length: "posToOffset e p \<le> length (doc e)"
proof -
  have "lineFrom (splitLines (doc e)) (nat (line p)) +
      min (ch p) (length (splitLines (doc e) ! nat (line p))) \<le> length (doc e)"
    if "\<not> line p < 0" and "\<not> int (length (splitLines (doc e))) \<le> line p"
  proof -
    have "nat (line p) < length (splitLines (doc e))" using that by simp
    from line_end_le_length [OF this] show ?thesis by simp
  qed
  then show ?thesis by (simp add: posToOffset_def Let_def)
qed

lemma posToOffset_mono:
  assumes "posLe p q"
  shows "posToOffset e p \<le> posToOffset e q"
proof -
  let ?ls = "splitLines (doc e)"
  show ?thesis
  proof (cases "line p < 0")
    case True
    then show ?thesis by (simp add: posToOffset_def Let_def)
  next
    case p0: False
    show ?thesis
    proof (cases "int (length ?ls) \<le> line q")
      case True
      then have "posToOffset e q = length (doc e)"
        using p0 assms by (auto simp: posToOffset_def Let_def posLe_def)
      then show ?thesis using posToOffset_le_length [of e p] by simp
    next
      case qn: False
      have pq: "line p \<le> line q" using assms by (auto simp: posLe_def)
      have pe: "posToOffset e p = lineFrom ?ls (nat (line p)) + min (ch p) (length (?ls ! nat (line p)))"
        using p0 qn pq by (simp add: posToOffset_def Let_def)
      have qe: "posToOffset e q = lineFrom ?ls (nat (line q)) + min (ch q) (length (?ls ! nat (line q)))"
        using p0 qn pq by (simp add: posToOffset_def Let_def)
      show ?thesis
      proof (cases "line p = line q")
        case True
        then have "ch p \<le> ch q" using assms by (auto simp: posLe_def)
        then show ?thesis using pe qe True by (simp add: min_le_iff_disj)
      next
        case False
        have "line p < int (length ?ls)" using qn pq by linarith
        then have pl: "nat (line p) < length ?ls" using p0 by linarith
        have "Suc (nat (line p)) \<le> nat (line q)" using pq False p0 by linarith
        then have "lineFrom ?ls (Suc (nat (line p))) \<le> lineFrom ?ls (nat (line q))"
          by (rule lineFrom_mono)
        then have "lineFrom ?ls (nat (line p)) + length (?ls ! nat (line p))
            \<le> lineFrom ?ls (nat (line q))"
          using lineFrom_Suc [OF pl] by simp
        moreover have "min (ch p) (length (?ls ! nat (line p))) \<le> length (?ls ! nat (line p))"
          by simp
        ultimately show ?thesis unfolding pe qe by linarith
      qed
    qed
  qed
qed

lemma posLe_total: "\<not> posLe p q \<Longrightarrow> posLe q p"
  by (auto simp: posLe_def)

lemma selection_ordered: "posLe (getCursorFrom e) (getCursorTo e)"
  by (auto simp: getCursorFrom_def getCursorTo_def dest: posLe_total)

lemma replaceSelection_Some:
  "replaceSelection e t =
     Some (take (posToOffset e (getCursorFrom e)) (doc e) @ t @
           drop (posToOffset e (getCursorTo e)) (doc e))"
  using posToOffset_mono [OF selection_ordered [of e], of e]
  by (simp add: replaceSelection_def replaceRange_def Let_def)

section \<open>Claims about the block text\<close>

lemma take_mid_drop:
  assumes "a \<le> b"
  shows "take a d @ take (b - a) (drop a d) @ drop b d = d"
proof -
  have "drop b d = drop (b - a) (drop a d)" using assms by simp
  then have "take (b - a) (drop a d) @ drop b d = drop a d"
    by (simp only: append_take_drop_id)
  then show ?thesis by simp
qed

text \<open>
  Claim C9. For a \<open>FenceInfo\<close> with \<open>startLine < endLine\<close> (any valid one with
  \<open>inside = true\<close>), \<^verbatim>\<open>replaceBlock\<close> called with the string \<^verbatim>\<open>getBlockText\<close> returns
  succeeds and leaves the whole text of the document as it was.
\<close>

theorem replaceBlock_getBlockText:
  assumes "startLine info < endLine info"
  shows "replaceBlock e info (getBlockText e info) = Some (doc e)"
proof -
  let ?from = "\<lparr>line = startLine info + 1, ch = 0\<rparr>"
  let ?to = "\<lparr>line = endLine info, ch = 0\<rparr>"
  have "posLe ?from ?to" using assms by (auto simp: posLe_def)
  then have le: "posToOffset e ?from \<le> posToOffset e ?to" by (rule posToOffset_mono)
  show ?thesis using le take_mid_drop [OF le, of "doc e"]
    by (simp add: replaceBlock_def getBlockText_def replaceRange_def getRange_def Let_def)
qed

text \<open>The theorem of C9 on the fence of three lines, whose block text is \<open>x = 1\<close> and a
  newline.\<close>

theorem replaceBlock_getBlockText_witness:
  "replaceBlock exFence \<lparr>inside = True, lang = Some ''python'', startLine = 0, endLine = 2\<rparr>
     (getBlockText exFence \<lparr>inside = True, lang = Some ''python'', startLine = 0, endLine = 2\<rparr>)
   = Some (doc exFence)
   \<and> getBlockText exFence \<lparr>inside = True, lang = Some ''python'', startLine = 0, endLine = 2\<rparr>
       = ''x = 1\<newline>''"
proof -
  have g: "getBlockText exFence \<lparr>inside = True, lang = Some ''python'', startLine = 0, endLine = 2\<rparr>
       = ''x = 1\<newline>''" by code_simp
  show ?thesis
    using replaceBlock_getBlockText [of "\<lparr>inside = True, lang = Some ''python'', startLine = 0, endLine = 2\<rparr>" exFence] g
    by simp
qed

text \<open>
  Claim C2, as amended. For a fence (\<open>startLine < endLine\<close>) and a selection that
  reaches the lines of the block (it starts on a line before \<open>endLine\<close> and ends on a
  line after \<open>startLine\<close>, as every selection does whose cursor \<^verbatim>\<open>findFenceInfo\<close> finds
  inside), \<^verbatim>\<open>mergePasteIntoBlock\<close> returns the block text before the clamped start of the
  selection, the pasted text, and the block text after the clamped end of the selection:
  a prefix and a suffix of the block content that do not overlap, so no text of a
  delimiter line or from outside the block is in the result. A selection that starts at
  or before the opening delimiter line gives the empty prefix (the pasted text comes
  first), one that ends at or after the closing delimiter line the empty suffix.
\<close>

theorem mergePasteIntoBlock_overlapping_selection:
  assumes "startLine info < endLine info"
    and "line (getCursorFrom e) < endLine info"
    and "startLine info < line (getCursorTo e)"
  shows "let A = posToOffset e \<lparr>line = startLine info + 1, ch = 0\<rparr>;
             block = getBlockText e info;
             a = (if line (getCursorFrom e) \<le> startLine info then 0
                  else posToOffset e (getCursorFrom e) - A);
             b = (if endLine info \<le> line (getCursorTo e) then length block
                  else posToOffset e (getCursorTo e) - A)
         in mergePasteIntoBlock e info pasted = take a block @ pasted @ drop b block
            \<and> a \<le> b \<and> b \<le> length block"
proof -
  let ?bs = "\<lparr>line = startLine info + 1, ch = 0\<rparr>"
  let ?be = "\<lparr>line = endLine info, ch = 0\<rparr>"
  let ?sf = "if line (getCursorFrom e) \<le> startLine info then ?bs else getCursorFrom e"
  let ?st = "if endLine info \<le> line (getCursorTo e) then ?be else getCursorTo e"
  define A where "A = posToOffset e ?bs"
  define B where "B = posToOffset e ?be"
  define F where "F = posToOffset e ?sf"
  define T where "T = posToOffset e ?st"
  define d where "d = doc e"
  have AF: "A \<le> F" unfolding A_def F_def
    by (rule posToOffset_mono) (auto simp: posLe_def)
  have TB: "T \<le> B" unfolding T_def B_def
    by (rule posToOffset_mono) (auto simp: posLe_def)
  have FT: "F \<le> T" unfolding F_def T_def
    using assms selection_ordered [of e]
    by (intro posToOffset_mono) (auto simp: posLe_def)
  have Bd: "B \<le> length d" unfolding B_def d_def by (rule posToOffset_le_length)
  have block: "getBlockText e info = take (B - A) (drop A d)"
    by (simp add: getBlockText_def getRange_def Let_def A_def B_def d_def)
  have len: "length (getBlockText e info) = B - A" using Bd by (simp add: block)
  have left: "take (F - A) (drop A d) = take (F - A) (getBlockText e info)"
    using FT TB by (simp add: block min_def)
  have "drop (T - A) (getBlockText e info) = take (B - A - (T - A)) (drop (T - A) (drop A d))"
    by (simp add: block drop_take)
  also have "\<dots> = take (B - T) (drop T d)" using AF FT by simp
  finally have right: "take (B - T) (drop T d) = drop (T - A) (getBlockText e info)" by simp
  have merge: "mergePasteIntoBlock e info pasted =
      take (F - A) (getBlockText e info) @ pasted @ drop (T - A) (getBlockText e info)"
    unfolding left [symmetric] right [symmetric]
    by (simp add: mergePasteIntoBlock_def getRange_def Let_def A_def B_def F_def T_def d_def)
  have a: "(if line (getCursorFrom e) \<le> startLine info then 0
            else posToOffset e (getCursorFrom e) - A) = F - A"
    by (simp add: F_def A_def)
  have b: "(if endLine info \<le> line (getCursorTo e) then length (getBlockText e info)
            else posToOffset e (getCursorTo e) - A) = T - A"
    by (simp add: len T_def B_def)
  have ord: "F - A \<le> T - A \<and> T - A \<le> length (getBlockText e info)"
    using AF FT TB len by linarith
  show ?thesis
    unfolding Let_def A_def [symmetric] a b using merge ord by simp
qed

text \<open>The theorem of C2 with the cursor at the end of the content line.\<close>

theorem mergePasteIntoBlock_overlapping_selection_witness:
  "mergePasteIntoBlock exFence
     \<lparr>inside = True, lang = Some ''python'', startLine = 0, endLine = 2\<rparr> ''y''
   = take 5 ''x = 1\<newline>'' @ ''y'' @ drop 5 ''x = 1\<newline>''"
proof -
  let ?i = "\<lparr>inside = True, lang = Some ''python'', startLine = 0, endLine = 2\<rparr>"
  have h1: "startLine ?i < endLine ?i" by simp
  have h2: "line (getCursorFrom exFence) < endLine ?i" by code_simp
  have h3: "startLine ?i < line (getCursorTo exFence)" by code_simp
  have g: "getBlockText exFence ?i = ''x = 1\<newline>''" by code_simp
  have A: "posToOffset exFence \<lparr>line = startLine ?i + 1, ch = 0\<rparr> = 10" by code_simp
  have f: "posToOffset exFence (getCursorFrom exFence) = 15" by code_simp
  have t: "posToOffset exFence (getCursorTo exFence) = 15" by code_simp
  have lf: "line (getCursorFrom exFence) = 1" by code_simp
  have lt: "line (getCursorTo exFence) = 1" by code_simp
  show ?thesis
    using mergePasteIntoBlock_overlapping_selection [OF h1 h2 h3, of "''y''"]
    unfolding Let_def g A f t lf lt by simp
qed

text \<open>
  Claim C2 as stated fails: with both ends of the selection on line 0, before the fence
  of lines 1 to 3, only the start of the selection is clamped; the result is the pasted
  text followed by the text from the end of the selection on, with the opening
  delimiter line in it, and not the pasted text followed by the block content.
\<close>

theorem mergePasteIntoBlock_selection_before_block:
  "mergePasteIntoBlock exSelectionBefore infoSelectionBefore ''y''
     = ''y\<newline>```python\<newline>x = 1\<newline>''
   \<and> ''y'' @ getBlockText exSelectionBefore infoSelectionBefore = ''yx = 1\<newline>''"
  by code_simp

section \<open>The exit status as text\<close>

declare showNat.simps [simp del]

text \<open>Different exit statuses are written differently: the decimal digits of a number
  determine it, a negative number starts with a minus sign, and \<open>null\<close> starts with a
  letter.\<close>

lemma of_char_digitChar: "d < 10 \<Longrightarrow> (of_char (digitChar d) :: nat) = 48 + d"
proof -
  assume d: "d < 10"
  have "(of_char (char_of (48 + d) :: char) :: nat) = (48 + d) mod 256"
    by (rule of_char_of)
  also have "\<dots> = 48 + d" using d by (intro mod_less) linarith
  finally show ?thesis by (simp only: digitChar_def)
qed

lemma digitChar_inj: "a < 10 \<Longrightarrow> b < 10 \<Longrightarrow> digitChar a = digitChar b \<Longrightarrow> a = b"
proof -
  assume a: "a < 10" and b: "b < 10" and e: "digitChar a = digitChar b"
  have "(of_char (digitChar a) :: nat) = (of_char (digitChar b) :: nat)"
    by (simp only: e)
  then have "48 + a = 48 + b"
    by (simp only: of_char_digitChar [OF a] of_char_digitChar [OF b])
  then show "a = b" by linarith
qed

lemma digitChar_not_sign: "d < 10 \<Longrightarrow> digitChar d \<noteq> CHR ''-'' \<and> digitChar d \<noteq> CHR ''n''"
proof -
  assume d: "d < 10"
  have v: "(of_char (digitChar d) :: nat) = 48 + d" by (rule of_char_digitChar [OF d])
  have m: "(of_char CHR ''-'' :: nat) = 45" by simp
  have n: "(of_char CHR ''n'' :: nat) = 110" by simp
  have "digitChar d = CHR ''-'' \<Longrightarrow> False"
  proof -
    assume "digitChar d = CHR ''-''"
    then have "(of_char (digitChar d) :: nat) = of_char CHR ''-''" by (simp only:)
    then have "48 + d = 45" by (simp only: v m)
    then show False by linarith
  qed
  moreover have "digitChar d = CHR ''n'' \<Longrightarrow> False"
  proof -
    assume "digitChar d = CHR ''n''"
    then have "(of_char (digitChar d) :: nat) = of_char CHR ''n''" by (simp only:)
    then have "48 + d = 110" by (simp only: v n)
    then show False using d by linarith
  qed
  ultimately show ?thesis by blast
qed

lemma showNat_not_Nil: "showNat n \<noteq> []"
  by (subst showNat.simps) simp

lemma showNat_inj: "showNat n = showNat m \<Longrightarrow> n = m"
proof (induction n arbitrary: m rule: showNat.induct)
  case (1 n)
  show ?case
  proof (cases "n < 10")
    case n: True
    show ?thesis
    proof (cases "m < 10")
      case True
      then have "[digitChar n] = [digitChar m]"
        using "1.prems" n by (simp add: showNat.simps [of n] showNat.simps [of m])
      then show ?thesis using n True digitChar_inj by simp
    next
      case False
      then have "[digitChar n] = showNat (m div 10) @ [digitChar (m mod 10)]"
        using "1.prems" n by (simp add: showNat.simps [of n] showNat.simps [of m])
      then show ?thesis using showNat_not_Nil [of "m div 10"] by simp
    qed
  next
    case n: False
    show ?thesis
    proof (cases "m < 10")
      case True
      then have "showNat (n div 10) @ [digitChar (n mod 10)] = [digitChar m]"
        using "1.prems" n by (simp add: showNat.simps [of n] showNat.simps [of m])
      then show ?thesis using showNat_not_Nil [of "n div 10"] by simp
    next
      case False
      then have "showNat (n div 10) @ [digitChar (n mod 10)] = showNat (m div 10) @ [digitChar (m mod 10)]"
        using "1.prems" n by (simp add: showNat.simps [of n] showNat.simps [of m])
      then have a: "showNat (n div 10) = showNat (m div 10)"
        and b: "digitChar (n mod 10) = digitChar (m mod 10)" by simp_all
      have "n div 10 = m div 10" using "1.IH" [OF n a] .
      moreover have "n mod 10 = m mod 10" using b digitChar_inj [of "n mod 10" "m mod 10"] by simp
      ultimately show ?thesis by (metis div_mult_mod_eq)
    qed
  qed
qed

lemma showNat_hd_digit: "\<exists>d<10. hd (showNat n) = digitChar d"
proof (induction n rule: showNat.induct)
  case (1 n)
  show ?case
  proof (cases "n < 10")
    case True
    then show ?thesis by (subst showNat.simps) auto
  next
    case False
    then have "hd (showNat n) = hd (showNat (n div 10))"
      using showNat_not_Nil [of "n div 10"] by (subst showNat.simps) simp
    then show ?thesis using "1.IH" [OF False] by simp
  qed
qed

lemma showInt_hd: "hd (showInt i) \<noteq> CHR ''n''"
proof (cases "i < 0")
  case True
  then show ?thesis by (simp add: showInt_def)
next
  case False
  obtain d where "d < 10" "hd (showNat (nat i)) = digitChar d"
    using showNat_hd_digit [of "nat i"] by blast
  then show ?thesis using False digitChar_not_sign [of d] by (simp add: showInt_def)
qed

lemma showInt_inj: "showInt i = showInt j \<Longrightarrow> i = j"
proof -
  assume e: "showInt i = showInt j"
  have neg_pos: "\<And>a b. a < 0 \<Longrightarrow> \<not> b < 0 \<Longrightarrow> showInt a \<noteq> showInt b"
  proof
    fix a b :: int assume a: "a < 0" and b: "\<not> b < 0" and ab: "showInt a = showInt b"
    obtain d where d: "d < 10" "hd (showNat (nat b)) = digitChar d"
      using showNat_hd_digit [of "nat b"] by blast
    have "hd (showInt a) = CHR ''-''" using a by (simp add: showInt_def)
    moreover have "hd (showInt b) = digitChar d" using b d by (simp add: showInt_def)
    ultimately show False using ab digitChar_not_sign [OF d(1)] by simp
  qed
  show "i = j"
  proof (cases "i < 0")
    case i: True
    show ?thesis
    proof (cases "j < 0")
      case True
      then have "showNat (nat (- i)) = showNat (nat (- j))"
        using e i by (simp add: showInt_def)
      then have "nat (- i) = nat (- j)" by (rule showNat_inj)
      then show ?thesis using i True by linarith
    next
      case False
      then show ?thesis using neg_pos [OF i False] e by simp
    qed
  next
    case i: False
    show ?thesis
    proof (cases "j < 0")
      case True
      then show ?thesis using neg_pos [OF True i] e by simp
    next
      case False
      then have "showNat (nat i) = showNat (nat j)"
        using e i by (simp add: showInt_def)
      then have "nat i = nat j" by (rule showNat_inj)
      then show ?thesis using i False by linarith
    qed
  qed
qed

lemma showCode_inj: "showCode c = showCode c' \<Longrightarrow> c = c'"
proof (cases c)
  case None
  assume e: "showCode c = showCode c'"
  show ?thesis
  proof (cases c')
    case n: None
    then show ?thesis using None by simp
  next
    case (Some j)
    then have "showInt j = ''null''" using e None by (simp add: showCode_def)
    then have "hd (showInt j) = CHR ''n''" by (simp only: list.sel)
    then show ?thesis using showInt_hd [of j] by simp
  qed
next
  case (Some i)
  assume e: "showCode c = showCode c'"
  show ?thesis
  proof (cases c')
    case None
    then have "showInt i = ''null''" using e Some by (simp add: showCode_def)
    then have "hd (showInt i) = CHR ''n''" by (simp only: list.sel)
    then show ?thesis using showInt_hd [of i] by simp
  next
    case s: (Some j)
    then have "showInt i = showInt j" using e Some by (simp add: showCode_def)
    then show ?thesis using Some s showInt_inj by simp
  qed
qed

section \<open>Claims about the formatter subprocess\<close>

lemma settled_stays:
  "settled st = Some v \<Longrightarrow> settled (foldl (onChildEvent input) st evs) = Some v"
proof (induction evs arbitrary: st)
  case Nil
  then show ?case by simp
next
  case (Cons ev evs)
  have "settled (onChildEvent input st ev) = Some v"
    using Cons.prems by (cases ev) (simp_all add: settle_def)
  then show ?case using Cons.IH by simp
qed

lemma data_events_collect:
  "list_all isData ds \<Longrightarrow>
   foldl (onChildEvent input) st ds =
     st\<lparr>out := out st @ collectedStdout ds, err := err st @ collectedStderr ds\<rparr>"
proof (induction ds arbitrary: st)
  case Nil
  then show ?case by (simp add: collectedStdout_def collectedStderr_def)
next
  case (Cons ev ds)
  then show ?case
    by (cases ev) (simp_all add: collectedStdout_def collectedStderr_def)
qed

text \<open>
  Claim C6. When the child writes chunks of output and then closes with an exit status
  (no \<^verbatim>\<open>error\<close> event before), \<^verbatim>\<open>runFormatter\<close> settles: with status 0 and non-empty
  standard output it resolves with that output, the chunks concatenated; with status 0
  and empty output it resolves with the input; with any other status it is rejected
  with an error that carries the collected standard error text, or, when that is
  empty, the message \<open>Formatter exited with code\<close> followed by the status. That message
  names the status: no other status gives the same message.
\<close>

theorem runFormatter_on_close:
  assumes "os cmd args input = ds @ CloseEvent code # rest"
    and "list_all isData ds"
  shows "runFormatter os cmd args input =
     Some (if code = Some 0
           then Inr (if collectedStdout ds = [] then input else collectedStdout ds)
           else Inl (FormatterError
                  (if collectedStderr ds = []
                   then ''Formatter exited with code '' @ showCode code
                   else collectedStderr ds)))
     \<and> (\<forall>code'. ''Formatter exited with code '' @ showCode code' =
                  ''Formatter exited with code '' @ showCode code \<longrightarrow> code' = code)"
proof -
  let ?st0 = "\<lparr>out = [], err = [], settled = None\<rparr>"
  let ?st1 = "\<lparr>out = collectedStdout ds, err = collectedStderr ds, settled = None\<rparr>"
  let ?v = "if code = Some 0
           then Inr (if collectedStdout ds = [] then input else collectedStdout ds)
           else Inl (FormatterError
                  (if collectedStderr ds = []
                   then ''Formatter exited with code '' @ showCode code
                   else collectedStderr ds))"
  have 1: "foldl (onChildEvent input) ?st0 ds = ?st1"
    using data_events_collect [OF assms(2), of input ?st0] by simp
  have 2: "settled (onChildEvent input ?st1 (CloseEvent code)) = Some ?v"
    by (simp add: settle_def)
  have "settled (foldl (onChildEvent input) (onChildEvent input ?st1 (CloseEvent code)) rest) = Some ?v"
    using 2 by (rule settled_stays)
  then have r: "runFormatter os cmd args input = Some ?v"
    unfolding runFormatter_def assms(1) by (simp only: foldl_append foldl_Cons 1)
  have inj: "\<forall>code'. ''Formatter exited with code '' @ showCode code' =
                  ''Formatter exited with code '' @ showCode code \<longrightarrow> code' = code"
    using showCode_inj by (simp only: same_append_eq) blast
  show ?thesis using r inj by (rule conjI)
qed

text \<open>The theorem of C6 on five formatters: exit status 2 with text on standard error,
  exit status 1 and then \<open>null\<close> with nothing on standard error (the messages end in
  \<open>1\<close> and in \<open>null\<close>), exit status 0 without output, exit status 0 with the output in
  two chunks.\<close>

theorem runFormatter_on_close_witness:
  "runFormatter exOsFailing ''ruff'' [] ''x = 1'' = Some (Inl (FormatterError ''error: Failed to parse''))
   \<and> runFormatter exOsExit1 ''ruff'' [] ''x = 1'' = Some (Inl (FormatterError ''Formatter exited with code 1''))
   \<and> runFormatter exOsKilled ''ruff'' [] ''x = 1'' = Some (Inl (FormatterError ''Formatter exited with code null''))
   \<and> runFormatter exOsSilent ''ruff'' [] ''x = 1'' = Some (Inr ''x = 1'')
   \<and> runFormatter exOsEcho ''ruff'' [] ''x = 1'' = Some (Inr ''x = 1'')"
proof -
  have f1: "exOsFailing ''ruff'' [] ''x = 1'' =
      [StderrData ''error: '', StderrData ''Failed to parse''] @ CloseEvent (Some 2) # []"
    by (simp add: exOsFailing_def)
  have f2: "list_all isData [StderrData ''error: '', StderrData ''Failed to parse'']" by simp
  have e1: "exOsExit1 ''ruff'' [] ''x = 1'' = [StdoutData ''partial''] @ CloseEvent (Some 1) # []"
    by (simp add: exOsExit1_def)
  have e2: "list_all isData [StdoutData ''partial'']" by simp
  have k1: "exOsKilled ''ruff'' [] ''x = 1'' = [] @ CloseEvent None # []"
    by (simp add: exOsKilled_def)
  have s1: "exOsSilent ''ruff'' [] ''x = 1'' = [] @ CloseEvent (Some 0) # []"
    by (simp add: exOsSilent_def)
  have n2: "list_all isData []" by simp
  have o1: "exOsEcho ''ruff'' [] ''x = 1'' =
      [StdoutData ''x ='', StdoutData '' 1''] @ CloseEvent (Some 0) # []"
    by (simp add: exOsEcho_def)
  have o2: "list_all isData [StdoutData ''x ='', StdoutData '' 1'']" by simp
  have c1: "showCode (Some 1) = ''1''" by code_simp
  have cn: "showCode None = ''null''" by code_simp
  have a: "runFormatter exOsFailing ''ruff'' [] ''x = 1'' = Some (Inl (FormatterError ''error: Failed to parse''))"
    using runFormatter_on_close [of exOsFailing "''ruff''" "[]" "''x = 1''"
        "[StderrData ''error: '', StderrData ''Failed to parse'']" "Some 2" "[]", OF f1 f2]
    by (simp add: collectedStderr_def collectedStdout_def)
  have b: "runFormatter exOsExit1 ''ruff'' [] ''x = 1'' = Some (Inl (FormatterError ''Formatter exited with code 1''))"
    using runFormatter_on_close [of exOsExit1 "''ruff''" "[]" "''x = 1''"
        "[StdoutData ''partial'']" "Some 1" "[]", OF e1 e2]
    by (simp add: collectedStderr_def collectedStdout_def c1)
  have c: "runFormatter exOsKilled ''ruff'' [] ''x = 1'' = Some (Inl (FormatterError ''Formatter exited with code null''))"
    using runFormatter_on_close [of exOsKilled "''ruff''" "[]" "''x = 1''" "[]" None "[]", OF k1 n2]
    by (simp add: collectedStderr_def collectedStdout_def cn)
  have d: "runFormatter exOsSilent ''ruff'' [] ''x = 1'' = Some (Inr ''x = 1'')"
    using runFormatter_on_close [of exOsSilent "''ruff''" "[]" "''x = 1''" "[]" "Some 0" "[]", OF s1 n2]
    by (simp add: collectedStderr_def collectedStdout_def)
  have e: "runFormatter exOsEcho ''ruff'' [] ''x = 1'' = Some (Inr ''x = 1'')"
    using runFormatter_on_close [of exOsEcho "''ruff''" "[]" "''x = 1''"
        "[StdoutData ''x ='', StdoutData '' 1'']" "Some 0" "[]", OF o1 o2]
    by (simp add: collectedStderr_def collectedStdout_def)
  show ?thesis using a b c d e by blast
qed

section \<open>Claims about the paste handler\<close>

lemma pasteUnformatted_eq:
  "pasteUnformatted e t oc =
     oc\<lparr>hostCalls := hostCalls oc @ [ReplaceSelection t],
        docAfter := take (posToOffset e (getCursorFrom e)) (doc e) @ t @
                    drop (posToOffset e (getCursorTo e)) (doc e)\<rparr>"
  by (simp add: pasteUnformatted_def callReplaceSelection_def replaceSelection_Some)

text \<open>
  Claim C7. In block mode, when the handler has claimed the paste event and the
  formatter invocation on the merged text fails (rejected after an \<^verbatim>\<open>error\<close> event or
  after a non-zero exit), the only change the handler makes to the document is
  \<^verbatim>\<open>replaceSelection\<close> with the pasted text as it came from the clipboard: no block
  replacement happens, and the text afterwards is the old text with the selection
  replaced by the pasted text, whatever the failure says.
\<close>

theorem onPaste_block_formatter_failure:
  assumes "scope (settings p) = Block"
    and "preventDefaultCalled (onPaste os p evt e)"
    and "formatterInput (onPaste os p evt e) = Some merged"
    and "formatText os (settings p) merged = Some (Inl failure)"
  shows "\<exists>pasted. clipboardText evt = Some pasted \<and>
           hostCalls (onPaste os p evt e) = [ReplaceSelection pasted] \<and>
           docAfter (onPaste os p evt e) =
             take (posToOffset e (getCursorFrom e)) (doc e) @ pasted @
             drop (posToOffset e (getCursorTo e)) (doc e)"
proof -
  have nd: "\<not> now evt - lastPasteAt p < 250"
    using assms(2) by (auto simp: onPaste_def)
  obtain info where info: "findFenceInfo e (getCursor e) = Some info"
    using assms(2) nd
    by (cases "findFenceInfo e (getCursor e)") (auto simp: onPaste_def Let_def split: if_splits)
  obtain clip where clip: "clipboardText evt = Some clip"
    using assms(2) nd info
    by (cases "clipboardText evt") (auto simp: onPaste_def Let_def split: if_splits)
  have el: "enabled (settings p)" "\<not> defaultPrevented evt" "viewIsMarkdown evt"
      "inside info" "isPythonLang (lang info)" "clip \<noteq> []"
    using assms(2) nd info clip by (auto simp: onPaste_def Let_def split: if_splits)
  have oc: "onPaste os p evt e =
      (case formatText os (settings p) (mergePasteIntoBlock e info clip) of
         None \<Rightarrow> \<lparr>pluginAfter = p\<lparr>lastPasteAt := now evt\<rparr>, preventDefaultCalled = True,
                   formatterInput = Some (mergePasteIntoBlock e info clip),
                   hostCalls = [], docAfter = doc e\<rparr>
       | Some (Inr formatted) \<Rightarrow>
           (case callReplaceBlock e info formatted
                   \<lparr>pluginAfter = p\<lparr>lastPasteAt := now evt\<rparr>, preventDefaultCalled = True,
                    formatterInput = Some (mergePasteIntoBlock e info clip),
                    hostCalls = [], docAfter = doc e\<rparr> of
              Some oc' \<Rightarrow> oc'
            | None \<Rightarrow> pasteUnformatted e clip
                   \<lparr>pluginAfter = p\<lparr>lastPasteAt := now evt\<rparr>, preventDefaultCalled = True,
                    formatterInput = Some (mergePasteIntoBlock e info clip),
                    hostCalls = [], docAfter = doc e\<rparr>)
       | Some (Inl failure) \<Rightarrow> pasteUnformatted e clip
                   \<lparr>pluginAfter = p\<lparr>lastPasteAt := now evt\<rparr>, preventDefaultCalled = True,
                    formatterInput = Some (mergePasteIntoBlock e info clip),
                    hostCalls = [], docAfter = doc e\<rparr>)"
    using nd info clip el assms(1) by (simp add: onPaste_def Let_def)
  have fi: "formatterInput (onPaste os p evt e) = Some (mergePasteIntoBlock e info clip)"
    unfolding oc
    by (auto simp: pasteUnformatted_eq callReplaceBlock_def split: option.splits sum.splits)
  then have m: "merged = mergePasteIntoBlock e info clip" using assms(3) by simp
  have "onPaste os p evt e = pasteUnformatted e clip
                   \<lparr>pluginAfter = p\<lparr>lastPasteAt := now evt\<rparr>, preventDefaultCalled = True,
                    formatterInput = Some (mergePasteIntoBlock e info clip),
                    hostCalls = [], docAfter = doc e\<rparr>"
    unfolding oc using assms(4) m by simp
  then show ?thesis using clip by (simp add: pasteUnformatted_eq)
qed

text \<open>The theorem of C7 for a formatter that cannot be launched.\<close>

theorem onPaste_block_formatter_failure_witness:
  "hostCalls (onPaste exOsMissing exPlugin (exPaste 1000 (Some ''y'')) exFence) = [ReplaceSelection ''y'']
   \<and> docAfter (onPaste exOsMissing exPlugin (exPaste 1000 (Some ''y'')) exFence)
       = joinLines [''```python'', ''x = 1y'', ''```'']"
proof -
  have h1: "scope (settings exPlugin) = Block" by code_simp
  have h2: "preventDefaultCalled (onPaste exOsMissing exPlugin (exPaste 1000 (Some ''y'')) exFence)"
    by code_simp
  have h3: "formatterInput (onPaste exOsMissing exPlugin (exPaste 1000 (Some ''y'')) exFence)
      = Some ''x = 1y\<newline>''" by code_simp
  have h4: "formatText exOsMissing (settings exPlugin) ''x = 1y\<newline>''
      = Some (Inl (SpawnError ''spawn ruff ENOENT''))" by code_simp
  have c: "clipboardText (exPaste 1000 (Some ''y'')) = Some ''y''" by (simp add: exPaste_def)
  have d: "take (posToOffset exFence (getCursorFrom exFence)) (doc exFence) @ ''y'' @
             drop (posToOffset exFence (getCursorTo exFence)) (doc exFence)
           = joinLines [''```python'', ''x = 1y'', ''```'']" by code_simp
  show ?thesis
    using onPaste_block_formatter_failure [OF h1 h2 h3 h4] c d by auto
qed

text \<open>
  Claim C10. A paste event whose plain-text payload is the empty string is handled as
  one without payload: the outcome is the same, \<^verbatim>\<open>preventDefault\<close> is not called, no
  formatter is invoked and the document is not changed.
\<close>

theorem onPaste_empty_clipboard:
  assumes "clipboardText evt = Some []"
  shows "onPaste os p evt e = onPaste os p (evt\<lparr>clipboardText := None\<rparr>) e
       \<and> \<not> preventDefaultCalled (onPaste os p evt e)
       \<and> formatterInput (onPaste os p evt e) = None
       \<and> hostCalls (onPaste os p evt e) = []
       \<and> docAfter (onPaste os p evt e) = doc e"
  using assms by (simp add: onPaste_def Let_def split: option.splits)

text \<open>The theorem of C10 inside a Python fence, where a non-empty payload is claimed.\<close>

theorem onPaste_empty_clipboard_witness:
  "onPaste exOsEcho exPlugin (exPaste 1000 (Some [])) exFence
     = onPaste exOsEcho exPlugin (exPaste 1000 None) exFence
   \<and> \<not> preventDefaultCalled (onPaste exOsEcho exPlugin (exPaste 1000 (Some [])) exFence)
   \<and> preventDefaultCalled (onPaste exOsEcho exPlugin (exPaste 1000 (Some ''y'')) exFence)"
proof -
  have h: "clipboardText (exPaste 1000 (Some [])) = Some []" by (simp add: exPaste_def)
  have u: "(exPaste 1000 (Some []))\<lparr>clipboardText := None\<rparr> = exPaste 1000 None"
    by (simp add: exPaste_def)
  have y: "preventDefaultCalled (onPaste exOsEcho exPlugin (exPaste 1000 (Some ''y'')) exFence)"
    by code_simp
  note r = onPaste_empty_clipboard [OF h, of exOsEcho exPlugin exFence, unfolded u]
  show ?thesis using r y by blast
qed

text \<open>
  Claim C3, as amended. The timestamp is set to the time of every paste event that is
  not itself debounced, before any eligibility check, and so whether or not the event
  is then handled; a paste event that arrives less than 250 ms after such an event is
  suppressed: the plugin is unchanged, \<^verbatim>\<open>preventDefault\<close> is not called, no formatter
  runs and the document is untouched, so the default paste proceeds.
\<close>

theorem onPaste_debounce:
  assumes "\<not> now ev1 - lastPasteAt p < 250" and "now ev2 - now ev1 < 250"
  shows "lastPasteAt (pluginAfter (onPaste os p ev1 e1)) = now ev1
       \<and> onPaste os (pluginAfter (onPaste os p ev1 e1)) ev2 e2 =
           \<lparr>pluginAfter = pluginAfter (onPaste os p ev1 e1), preventDefaultCalled = False,
            formatterInput = None, hostCalls = [], docAfter = doc e2\<rparr>"
proof -
  have pa: "pluginAfter (onPaste os p ev1 e1) = p\<lparr>lastPasteAt := now ev1\<rparr>"
    using assms(1)
    by (auto simp: onPaste_def Let_def pasteUnformatted_eq callReplaceBlock_def
          callReplaceSelection_def split: option.splits sum.splits)
  show ?thesis unfolding pa using assms(2) by (simp add: onPaste_def)
qed

text \<open>The theorem of C3 for two pastes into a Python fence, 100 ms apart.\<close>

theorem onPaste_debounce_witness:
  "lastPasteAt (pluginAfter (onPaste exOsEcho exPlugin (exPaste 1000 (Some ''y'')) exFence)) = 1000
   \<and> preventDefaultCalled (onPaste exOsEcho exPlugin (exPaste 1000 (Some ''y'')) exFence)
   \<and> \<not> preventDefaultCalled
        (onPaste exOsEcho (pluginAfter (onPaste exOsEcho exPlugin (exPaste 1000 (Some ''y'')) exFence))
           (exPaste 1100 (Some ''z'')) exFence)"
proof -
  have h1: "\<not> now (exPaste 1000 (Some ''y'')) - lastPasteAt exPlugin < 250" by code_simp
  have h2: "now (exPaste 1100 (Some ''z'')) - now (exPaste 1000 (Some ''y'')) < 250" by code_simp
  have y: "preventDefaultCalled (onPaste exOsEcho exPlugin (exPaste 1000 (Some ''y'')) exFence)"
    by code_simp
  have n: "now (exPaste 1000 (Some ''y'')) = 1000" by (simp add: exPaste_def)
  show ?thesis
    using onPaste_debounce [OF h1 h2, of exOsEcho exFence exFence] y n by simp
qed

text \<open>
  Claim C3 as stated fails: a paste into a document without a fence is suppressed for
  ineligibility, yet it sets the timestamp (from 0 to 1000); a paste into a Python fence
  100 ms later, which alone would be claimed, is then debounced.
\<close>

theorem onPaste_ineligible_sets_timestamp:
  "lastPasteAt exPlugin = 0
   \<and> \<not> preventDefaultCalled (onPaste exOsEcho exPlugin (exPaste 1000 (Some ''y'')) exProse)
   \<and> hostCalls (onPaste exOsEcho exPlugin (exPaste 1000 (Some ''y'')) exProse) = []
   \<and> lastPasteAt (pluginAfter (onPaste exOsEcho exPlugin (exPaste 1000 (Some ''y'')) exProse)) = 1000
   \<and> preventDefaultCalled (onPaste exOsEcho exPlugin (exPaste 1100 (Some ''y'')) exFence)
   \<and> \<not> preventDefaultCalled
        (onPaste exOsEcho (pluginAfter (onPaste exOsEcho exPlugin (exPaste 1000 (Some ''y'')) exProse))
           (exPaste 1100 (Some ''y'')) exFence)"
  by code_simp

end
